theory Spec2Isabelle
  imports Complex_Main
begin

section \<open>Strings and characters\<close>

text \<open>
  JavaScript strings are modelled as \<^typ>\<open>string\<close>, a list of 8-bit code units.
  The character classes of the regular expressions of the source are predicates on
  \<^typ>\<open>char\<close>, read through the code of the character.
\<close>

definition code :: "char \<Rightarrow> nat" where
  "code c = of_char c"

definition is_lower :: "char \<Rightarrow> bool" where
  "is_lower c = (97 \<le> code c \<and> code c \<le> 122)"

definition is_upper :: "char \<Rightarrow> bool" where
  "is_upper c = (65 \<le> code c \<and> code c \<le> 90)"

definition is_digit :: "char \<Rightarrow> bool" where
  "is_digit c = (48 \<le> code c \<and> code c \<le> 57)"

definition quote :: char where
  "quote = CHR 0x27"

definition backslash :: char where
  "backslash = CHR 0x5C"

text \<open>The class \<^verbatim>\<open>[\\\/]\<close>: a path separator of either platform.\<close>

definition is_sep :: "char \<Rightarrow> bool" where
  "is_sep c = (c = backslash \<or> c = CHR ''/'')"

text \<open>\<^verbatim>\<open>String.prototype.toLowerCase\<close> on the letters A to Z; other code units are kept.\<close>

definition lower_char :: "char \<Rightarrow> char" where
  "lower_char c =
     (case map_of (zip ''ABCDEFGHIJKLMNOPQRSTUVWXYZ'' ''abcdefghijklmnopqrstuvwxyz'') c of
        Some l \<Rightarrow> l
      | None \<Rightarrow> c)"

definition toLowerCase :: "string \<Rightarrow> string" where
  "toLowerCase s = map lower_char s"

text \<open>\<^verbatim>\<open>s.replace(/x/g, y)\<close> for a class of single characters \<open>x\<close> and a character \<open>y\<close>.\<close>

definition replace_chars :: "(char \<Rightarrow> bool) \<Rightarrow> char \<Rightarrow> string \<Rightarrow> string" where
  "replace_chars cls y s = map (\<lambda>c. if cls c then y else c) s"

text \<open>\<^verbatim>\<open>Array.prototype.join\<close>.\<close>

fun join :: "string \<Rightarrow> string list \<Rightarrow> string" where
  "join sep [] = []"
| "join sep [x] = x"
| "join sep (x # y # ys) = x @ sep @ join sep (y # ys)"

text \<open>\<^verbatim>\<open>String.prototype.startsWith\<close>.\<close>

fun startsWith :: "string \<Rightarrow> string \<Rightarrow> bool" where
  "startsWith s [] = True"
| "startsWith [] (p # ps) = False"
| "startsWith (c # cs) (p # ps) = (c = p \<and> startsWith cs ps)"

section \<open>Errors (src/errors.ts)\<close>

text \<open>
  The error classes of the source, identified by the \<^verbatim>\<open>name\<close> each constructor sets.
  \<open>StoreError\<close> and \<open>OtherError\<close> stand for what the collaborators outside this
  development (store, models) may throw.
\<close>

datatype error =
    EmbedderError
  | ModelLoadError
  | EmbeddingGenerationError
  | SecurityError
  | PathTraversalError
  | InvalidFilterError
  | InvalidIdError
  | StoreError
  | OtherError

section \<open>Filter builder (src/search/filter-builder.ts)\<close>

text \<open>\<^verbatim>\<open>SAFE_PATTERN = /^[a-zA-Z0-9_\-%]+$/\<close>\<close>

definition is_safe_char :: "char \<Rightarrow> bool" where
  "is_safe_char c =
     (is_lower c \<or> is_upper c \<or> is_digit c \<or> c = CHR ''_'' \<or> c = CHR ''-'' \<or> c = CHR ''%'')"

definition SAFE_PATTERN :: "string \<Rightarrow> bool" where
  "SAFE_PATTERN s = (s \<noteq> [] \<and> list_all is_safe_char s)"

definition MAX_FILTER_VALUE_LENGTH :: nat where
  "MAX_FILTER_VALUE_LENGTH = 500"

definition validateFilterPattern :: "string \<Rightarrow> bool" where
  "validateFilterPattern pattern =
     (if length pattern > MAX_FILTER_VALUE_LENGTH then False else SAFE_PATTERN pattern)"

text \<open>\<^verbatim>\<open>.replace(/[\\\/]/g, '_').replace(/\./g, '_')\<close>\<close>

definition path_to_like :: "string \<Rightarrow> string" where
  "path_to_like path =
     replace_chars (\<lambda>c. c = CHR ''.'') CHR ''_'' (replace_chars is_sep CHR ''_'' path)"

definition sanitizePathPattern :: "string \<Rightarrow> error + string" where
  "sanitizePathPattern path =
     (let sanitized = path_to_like path
      in if \<not> validateFilterPattern sanitized then Inl InvalidFilterError else Inr sanitized)"

text \<open>\<^verbatim>\<open>.replace(/\*\*/g, '%')\<close>: every non-overlapping pair of stars, from the left.\<close>

fun replace_double_star :: "string \<Rightarrow> string" where
  "replace_double_star (a # b # cs) =
     (if a = CHR ''*'' \<and> b = CHR ''*'' then CHR ''%'' # replace_double_star cs
      else a # replace_double_star (b # cs))"
| "replace_double_star cs = cs"

definition glob_to_like :: "string \<Rightarrow> string" where
  "glob_to_like pattern =
     replace_chars (\<lambda>c. c = CHR ''.'') CHR ''_''
       (replace_chars is_sep CHR ''_''
         (replace_chars (\<lambda>c. c = CHR ''?'') CHR ''_''
           (replace_chars (\<lambda>c. c = CHR ''*'') CHR ''%''
             (replace_double_star pattern))))"

definition sanitizeGlobPattern :: "string \<Rightarrow> error + string" where
  "sanitizeGlobPattern pattern =
     (let sanitized = glob_to_like pattern
      in if \<not> validateFilterPattern sanitized then Inl InvalidFilterError else Inr sanitized)"

definition buildPathLikeCondition :: "string \<Rightarrow> error + string" where
  "buildPathLikeCondition pathPattern =
     (case sanitizePathPattern pathPattern of
        Inl e \<Rightarrow> Inl e
      | Inr sanitized \<Rightarrow> Inr (''id LIKE '' @ [quote] @ sanitized @ ''%'' @ [quote]))"

definition buildLanguageCondition :: "string \<Rightarrow> error + string" where
  "buildLanguageCondition language =
     (if \<not> (language \<noteq> [] \<and> list_all is_lower language) then Inl InvalidFilterError
      else Inr (''language = '' @ [quote] @ language @ [quote]))"

definition buildFilePatternCondition :: "string \<Rightarrow> error + string" where
  "buildFilePatternCondition pattern =
     (case sanitizeGlobPattern pattern of
        Inl e \<Rightarrow> Inl e
      | Inr sanitized \<Rightarrow> Inr (''id LIKE '' @ [quote] @ ''%'' @ sanitized @ [quote]))"

definition EXTENSION_TO_LANGUAGE :: "(string \<times> string) list" where
  "EXTENSION_TO_LANGUAGE =
     [(''.ts'', ''typescript''), (''.tsx'', ''typescript''),
      (''.js'', ''javascript''), (''.jsx'', ''javascript''),
      (''.mjs'', ''javascript''), (''.cjs'', ''javascript''),
      (''.py'', ''python''), (''.pyw'', ''python''),
      (''.go'', ''go''), (''.rs'', ''rust'')]"

record FilterOptions =
  path :: "string option"
  filePattern :: "string option"

text \<open>
  \<^verbatim>\<open>filePattern.match(/^\*(\.[a-z]+)$/i)\<close>: the capture group, the dot with the letters
  after it, when the whole pattern is a star, a dot and one or more letters of either case.
\<close>

definition extMatch :: "string \<Rightarrow> string option" where
  "extMatch p =
     (case p of
        a # b # rest \<Rightarrow>
          if a = CHR ''*'' \<and> b = CHR ''.'' \<and> rest \<noteq> []
             \<and> list_all (\<lambda>c. is_lower c \<or> is_upper c) rest
          then Some (b # rest) else None
      | _ \<Rightarrow> None)"

text \<open>The conditions pushed by the \<^verbatim>\<open>if (options.path)\<close> block: none when the option is
  absent or the empty string.\<close>

definition path_conditions :: "string option \<Rightarrow> error + string list" where
  "path_conditions p =
     (case p of
        None \<Rightarrow> Inr []
      | Some v \<Rightarrow>
          if v = [] then Inr []
          else (case buildPathLikeCondition v of Inl e \<Rightarrow> Inl e | Inr c \<Rightarrow> Inr [c]))"

text \<open>The conditions pushed by the \<^verbatim>\<open>if (options.filePattern)\<close> block. The \<^verbatim>\<open>else\<close>
  of the source belongs to the test of \<^verbatim>\<open>extMatch\<close>: a pattern that matches and whose
  extension is not in the table pushes nothing.\<close>

definition file_conditions :: "string option \<Rightarrow> error + string list" where
  "file_conditions fp =
     (case fp of
        None \<Rightarrow> Inr []
      | Some v \<Rightarrow>
          if v = [] then Inr []
          else
            (case extMatch v of
               Some m \<Rightarrow>
                 (let ext = toLowerCase m in
                  case map_of EXTENSION_TO_LANGUAGE ext of
                    Some lang \<Rightarrow>
                      (case buildLanguageCondition lang of Inl e \<Rightarrow> Inl e | Inr c \<Rightarrow> Inr [c])
                  | None \<Rightarrow> Inr [])
             | None \<Rightarrow>
                 (case buildFilePatternCondition v of Inl e \<Rightarrow> Inl e | Inr c \<Rightarrow> Inr [c])))"

definition buildSafeFilter :: "'a FilterOptions_scheme \<Rightarrow> error + string option" where
  "buildSafeFilter options =
     (case path_conditions (path options) of
        Inl e \<Rightarrow> Inl e
      | Inr cs1 \<Rightarrow>
          (case file_conditions (filePattern options) of
             Inl e \<Rightarrow> Inl e
           | Inr cs2 \<Rightarrow>
               (let conditions = cs1 @ cs2
                in Inr (if length conditions > 0 then Some (join '' AND '' conditions)
                        else None))))"

section \<open>Path utilities (src/utils/paths.ts)\<close>

definition normalizePath :: "string \<Rightarrow> string" where
  "normalizePath inputPath = replace_chars (\<lambda>c. c = backslash) CHR ''/'' inputPath"

text \<open>
  The template literal \<^verbatim>\<open>${startLine}\<close> prints a number; line numbers are integers, printed
  in decimal with a minus sign when negative.
\<close>

definition digit_char :: "nat \<Rightarrow> char" where
  "digit_char d = ''0123456789'' ! d"

fun digits :: "nat \<Rightarrow> string" where
  "digits n = (if n < 10 then [digit_char n] else digits (n div 10) @ [digit_char (n mod 10)])"

declare digits.simps [simp del]

definition number_to_string :: "int \<Rightarrow> string" where
  "number_to_string i = (if i < 0 then ''-'' @ digits (nat (- i)) else digits (nat i))"

text \<open>The third parameter \<^verbatim>\<open>suffix\<close> defaults to the empty string.\<close>

definition pathToChunkId :: "string \<Rightarrow> int \<Rightarrow> string \<Rightarrow> string" where
  "pathToChunkId filePath startLine suffix =
     (let normalized = replace_chars (\<lambda>c. c = CHR ''.'') CHR ''_''
                         (replace_chars is_sep CHR ''_'' filePath)
      in normalized @ ''_L'' @ number_to_string startLine @ suffix)"

text \<open>
  \<^verbatim>\<open>process.platform\<close> is \<^verbatim>\<open>'win32'\<close> or something else; \<^verbatim>\<open>path.sep\<close> is a backslash on
  the former and a slash otherwise.
\<close>

datatype platform = Win32 | Posix

definition path_sep :: "platform \<Rightarrow> string" where
  "path_sep pf = (case pf of Win32 \<Rightarrow> [backslash] | Posix \<Rightarrow> ''/'')"

text \<open>
  \<^verbatim>\<open>path.resolve\<close> belongs to the Node.js runtime, not to the repository. It is a
  parameter of \<open>isWithinRoot\<close>: the function from the list of arguments to the
  resolved path, with the working directory of the process inside it.
\<close>

definition isWithinRoot ::
  "platform \<Rightarrow> (string list \<Rightarrow> string) \<Rightarrow> string \<Rightarrow> string \<Rightarrow> bool" where
  "isWithinRoot pf resolve testPath rootDir =
     (let resolvedPath = resolve [rootDir, testPath];
          resolvedRoot = resolve [rootDir]
      in if pf = Win32 then
           (let normalizedPath = toLowerCase resolvedPath;
                normalizedRoot = toLowerCase resolvedRoot
            in startsWith normalizedPath (normalizedRoot @ toLowerCase (path_sep pf))
               \<or> normalizedPath = normalizedRoot)
         else startsWith resolvedPath (resolvedRoot @ path_sep pf)
              \<or> resolvedPath = resolvedRoot)"

subsection \<open>The POSIX \<^verbatim>\<open>path.resolve\<close> of Node.js\<close>

text \<open>
  Modelled on the documented algorithm of \<^verbatim>\<open>path.posix.resolve\<close>: the arguments are read
  from the right, then the working directory, until an absolute path is built; the
  result is normalised segment by segment (empty segments and \<^verbatim>\<open>.\<close> dropped, \<^verbatim>\<open>..\<close>
  removing the segment before it, or dropped at the root of an absolute path) and
  printed without a trailing slash.
\<close>

fun resolve_loop :: "string list \<Rightarrow> string \<Rightarrow> string \<times> bool" where
  "resolve_loop [] resolvedPath = (resolvedPath, False)"
| "resolve_loop (p # ps) resolvedPath =
     (if p = [] then resolve_loop ps resolvedPath
      else if hd p = CHR ''/'' then (p @ ''/'' @ resolvedPath, True)
      else resolve_loop ps (p @ ''/'' @ resolvedPath))"

fun segments :: "string \<Rightarrow> string list" where
  "segments [] = [[]]"
| "segments (c # cs) =
     (if c = CHR ''/'' then [] # segments cs
      else (case segments cs of s # ss \<Rightarrow> (c # s) # ss | [] \<Rightarrow> [[c]]))"

text \<open>The segments kept so far are held in reverse.\<close>

fun normalizeSegments :: "bool \<Rightarrow> string list \<Rightarrow> string list \<Rightarrow> string list" where
  "normalizeSegments allowAboveRoot res [] = rev res"
| "normalizeSegments allowAboveRoot res (s # ss) =
     (if s = [] \<or> s = ''.'' then normalizeSegments allowAboveRoot res ss
      else if s = ''..'' then
        (case res of
           r # rs \<Rightarrow>
             if r = ''..'' then
               (if allowAboveRoot then normalizeSegments allowAboveRoot (''..'' # res) ss
                else normalizeSegments allowAboveRoot res ss)
             else normalizeSegments allowAboveRoot rs ss
         | [] \<Rightarrow>
             if allowAboveRoot then normalizeSegments allowAboveRoot [''..''] ss
             else normalizeSegments allowAboveRoot [] ss)
      else normalizeSegments allowAboveRoot (s # res) ss)"

definition normalizeString :: "string \<Rightarrow> bool \<Rightarrow> string" where
  "normalizeString p allowAboveRoot = join ''/'' (normalizeSegments allowAboveRoot [] (segments p))"

definition posix_resolve :: "string \<Rightarrow> string list \<Rightarrow> string" where
  "posix_resolve cwd args =
     (case resolve_loop (rev args @ [cwd]) [] of
        (resolvedPath, resolvedAbsolute) \<Rightarrow>
          (let normalized = normalizeString resolvedPath (\<not> resolvedAbsolute)
           in if resolvedAbsolute then ''/'' @ normalized
              else if normalized \<noteq> [] then normalized else ''.''))"

section \<open>Search results and the store\<close>

text \<open>
  The store (\<^verbatim>\<open>src/store\<close>), the embedder and the reranker are collaborators outside this
  development. A stored record is modelled with the fields the search path reads; a score
  is a real number. Every store call may fail. Logging, progress callbacks and metrics
  are left out.
\<close>

record VectorRecord =
  record_id :: string
  filePath :: string
  language :: string
  content :: string

record SearchResult =
  vrecord :: VectorRecord
  score :: real

record VectorStore =
  isEmpty :: "error + bool"
  fullTextSearch :: "string \<Rightarrow> int \<Rightarrow> error + SearchResult list"
  vectorSearch :: "real list \<Rightarrow> int \<Rightarrow> string option \<Rightarrow> error + SearchResult list"

record SearchOptions = FilterOptions +
  limit :: "int option"
  useReranking :: "bool option"
  candidateMultiplier :: "int option"
  fallbackToKeywordSearch :: "bool option"

text \<open>\<^verbatim>\<open>xs.slice(0, n)\<close>: a negative \<open>n\<close> counts from the end.\<close>

definition slice0 :: "'a list \<Rightarrow> int \<Rightarrow> 'a list" where
  "slice0 xs n = (if n < 0 then take (nat (int (length xs) + n)) xs else take (nat n) xs)"

section \<open>Keyword fallback (src/search/keyword-search.ts)\<close>

record KeywordSearchResult = SearchResult +
  kw_fromFallback :: bool

text \<open>The class \<^verbatim>\<open>\s\<close> on 8-bit code units.\<close>

definition is_space :: "char \<Rightarrow> bool" where
  "is_space c = (code c = 32 \<or> (9 \<le> code c \<and> code c \<le> 13) \<or> code c = 160)"

text \<open>\<^verbatim>\<open>'([^']+)'\<close> at the start of a string: the text between the quotes.\<close>

definition match_quoted :: "string \<Rightarrow> string option" where
  "match_quoted s =
     (case s of
        [] \<Rightarrow> None
      | q # t \<Rightarrow>
          if q = quote \<and> takeWhile (\<lambda>c. c \<noteq> quote) t \<noteq> [] \<and> dropWhile (\<lambda>c. c \<noteq> quote) t \<noteq> []
          then Some (takeWhile (\<lambda>c. c \<noteq> quote) t) else None)"

text \<open>\<^verbatim>\<open>/language\s*=\s*'([^']+)'/\<close> at the start of a string.\<close>

definition language_at :: "string \<Rightarrow> string option" where
  "language_at s =
     (if startsWith s ''language'' then
        (case dropWhile is_space (drop 8 s) of
           [] \<Rightarrow> None
         | e # t \<Rightarrow> if e = CHR ''='' then match_quoted (dropWhile is_space t) else None)
      else None)"

text \<open>\<^verbatim>\<open>/id\s+LIKE\s+'([^']+)'/\<close> at the start of a string.\<close>

definition id_like_at :: "string \<Rightarrow> string option" where
  "id_like_at s =
     (if startsWith s ''id'' \<and> takeWhile is_space (drop 2 s) \<noteq> []
         \<and> startsWith (dropWhile is_space (drop 2 s)) ''LIKE''
         \<and> takeWhile is_space (drop 4 (dropWhile is_space (drop 2 s))) \<noteq> []
      then match_quoted (dropWhile is_space (drop 4 (dropWhile is_space (drop 2 s))))
      else None)"

text \<open>\<^verbatim>\<open>String.prototype.match\<close> without the global flag: the leftmost match.\<close>

fun first_match :: "(string \<Rightarrow> 'a option) \<Rightarrow> string \<Rightarrow> 'a option" where
  "first_match f [] = f []"
| "first_match f (c # cs) =
     (case f (c # cs) of Some r \<Rightarrow> Some r | None \<Rightarrow> first_match f cs)"

text \<open>
  The regular expression \<^verbatim>\<open>new RegExp(`^${pattern}`)\<close> where \<^verbatim>\<open>pattern\<close> is the LIKE
  pattern with \<^verbatim>\<open>%\<close> replaced by \<^verbatim>\<open>.*\<close> and \<^verbatim>\<open>_\<close> by \<^verbatim>\<open>.\<close>. A character with a meaning of
  its own in the syntax of regular expressions is outside the fragment modelled here
  (\<open>None\<close>); the filter builder never emits one.
\<close>

datatype rx = Lit char | AnyChar | AnyStar

definition is_rx_syntax :: "char \<Rightarrow> bool" where
  "is_rx_syntax c = (c \<in> set ''^$*+?()[]{}|/'' \<or> c = backslash)"

definition rx_of_char :: "char \<Rightarrow> rx option" where
  "rx_of_char c =
     (if c = CHR ''%'' then Some AnyStar
      else if c = CHR ''_'' \<or> c = CHR ''.'' then Some AnyChar
      else if is_rx_syntax c then None
      else Some (Lit c))"

fun like_to_regex :: "string \<Rightarrow> rx list option" where
  "like_to_regex [] = Some []"
| "like_to_regex (c # cs) =
     (case rx_of_char c of
        None \<Rightarrow> None
      | Some r \<Rightarrow> (case like_to_regex cs of None \<Rightarrow> None | Some rs \<Rightarrow> Some (r # rs)))"

text \<open>A dot of a regular expression matches every character but a line terminator.\<close>

definition is_line_terminator :: "char \<Rightarrow> bool" where
  "is_line_terminator c = (code c = 10 \<or> code c = 13)"

text \<open>\<^verbatim>\<open>regex.test(s)\<close> for an expression anchored at the start only.\<close>

fun rx_test :: "rx list \<Rightarrow> string \<Rightarrow> bool" where
  "rx_test [] s = True"
| "rx_test (Lit c # r) [] = False"
| "rx_test (Lit c # r) (x # xs) = (x = c \<and> rx_test r xs)"
| "rx_test (AnyChar # r) [] = False"
| "rx_test (AnyChar # r) (x # xs) = (\<not> is_line_terminator x \<and> rx_test r xs)"
| "rx_test (AnyStar # r) [] = rx_test r []"
| "rx_test (AnyStar # r) (x # xs) =
     (rx_test r (x # xs) \<or> (\<not> is_line_terminator x \<and> rx_test (AnyStar # r) xs))"

text \<open>The callback of \<^verbatim>\<open>results.filter\<close>; \<open>None\<close> when the regular expression is outside
  the fragment.\<close>

definition keep_result ::
  "string option \<Rightarrow> string option \<Rightarrow> 'a SearchResult_scheme \<Rightarrow> bool option" where
  "keep_result languageMatch idLikeMatch result =
     (if (case languageMatch of Some l \<Rightarrow> language (vrecord result) \<noteq> l | None \<Rightarrow> False)
      then Some False
      else (case idLikeMatch of
              None \<Rightarrow> Some True
            | Some pat \<Rightarrow>
                (case like_to_regex pat of
                   None \<Rightarrow> None
                 | Some regex \<Rightarrow> Some (rx_test regex (record_id (vrecord result))))))"

definition applyFilter ::
  "'a SearchResult_scheme list \<Rightarrow> string \<Rightarrow> 'a SearchResult_scheme list option" where
  "applyFilter results flt =
     (let languageMatch = first_match language_at flt;
          idLikeMatch = first_match id_like_at flt
      in if list_ex (\<lambda>r. keep_result languageMatch idLikeMatch r = None) results then None
         else Some (filter (\<lambda>r. keep_result languageMatch idLikeMatch r = Some True) results))"

definition DEFAULT_LIMIT :: int where
  "DEFAULT_LIMIT = 10"

definition DEFAULT_CANDIDATE_MULTIPLIER :: int where
  "DEFAULT_CANDIDATE_MULTIPLIER = 5"

definition keywordOnlySearch ::
  "string \<Rightarrow> VectorStore \<Rightarrow> SearchOptions \<Rightarrow> error + KeywordSearchResult list" where
  "keywordOnlySearch query store options =
     (let limit' = (case limit options of None \<Rightarrow> 10 | Some l \<Rightarrow> l) in
      case isEmpty store of
        Inl e \<Rightarrow> Inl e
      | Inr True \<Rightarrow> Inr []
      | Inr False \<Rightarrow>
          (case buildSafeFilter options of
             Inl e \<Rightarrow> Inl e
           | Inr flt \<Rightarrow>
               (case fullTextSearch store query (limit' * 2) of
                  Inl e \<Rightarrow> Inl e
                | Inr results \<Rightarrow>
                    (case (case flt of
                             None \<Rightarrow> Some results
                           | Some f \<Rightarrow> if f = [] then Some results else applyFilter results f) of
                       None \<Rightarrow> Inl OtherError
                     | Some filtered \<Rightarrow>
                         Inr (map (\<lambda>result. SearchResult.extend result
                                     (KeywordSearchResult.fields True))
                                (slice0 filtered limit'))))))"

definition isEmbeddingError :: "error \<Rightarrow> bool" where
  "isEmbeddingError e =
     (e = EmbeddingGenerationError \<or> e = ModelLoadError \<or> e = EmbedderError)"

text \<open>
  The SQL semantics of \<^verbatim>\<open>LIKE\<close>, in the words of the specification: \<^verbatim>\<open>id LIKE p\<close> holds
  when the whole id matches \<open>p\<close>, where \<^verbatim>\<open>%\<close> stands for any sequence of characters and
  \<^verbatim>\<open>_\<close> for any single character. This is how the store reads a predicate.
\<close>

fun sql_like :: "string \<Rightarrow> string \<Rightarrow> bool" where
  "sql_like [] s = (s = [])"
| "sql_like (p # ps) [] = (p = CHR ''%'' \<and> sql_like ps [])"
| "sql_like (p # ps) (x # xs) =
     (if p = CHR ''%'' then sql_like ps (x # xs) \<or> sql_like (p # ps) xs
      else if p = CHR ''_'' then sql_like ps xs
      else x = p \<and> sql_like ps xs)"

section \<open>Hybrid search (src/search/index.ts)\<close>

record HybridSearchResult = SearchResult +
  combinedScore :: real
  vectorScore :: real
  keywordScore :: real
  fromFallback :: "bool option"

text \<open>
  Modelled from the spec: \<^verbatim>\<open>rerank\<close> of \<^verbatim>\<open>src/search/reranker.ts\<close>, which is not among the
  sources. The cross-encoder, a parameter, scores the candidates for the query or fails;
  the candidates take the new scores, are sorted by descending score, and the top \<open>k\<close>
  are kept.
\<close>

definition rerank ::
  "(string \<Rightarrow> SearchResult list \<Rightarrow> error + real list) \<Rightarrow> string \<Rightarrow> SearchResult list \<Rightarrow> int
     \<Rightarrow> error + SearchResult list" where
  "rerank crossEncoder query candidates k =
     (case crossEncoder query candidates of
        Inl e \<Rightarrow> Inl e
      | Inr scores \<Rightarrow>
          Inr (take (nat k)
                 (sort_key (\<lambda>r. - score r)
                    (map (\<lambda>(c, s). c\<lparr>score := s\<rparr>) (zip candidates scores)))))"

text \<open>The result built from a keyword result on the fallback path.\<close>

definition fallback_result :: "KeywordSearchResult \<Rightarrow> HybridSearchResult" where
  "fallback_result result =
     \<lparr>vrecord = vrecord result, score = score result,
      combinedScore = score result, vectorScore = 0, keywordScore = score result,
      fromFallback = Some True\<rparr>"

text \<open>The result built on the vector path; \<^verbatim>\<open>find\<close> returns the first result of the id.\<close>

definition hybrid_result ::
  "SearchResult list \<Rightarrow> SearchResult list \<Rightarrow> SearchResult \<Rightarrow> HybridSearchResult" where
  "hybrid_result vectorResults boostedResults result =
     (let originalVector =
            find (\<lambda>r. record_id (vrecord r) = record_id (vrecord result)) vectorResults;
          boosted =
            find (\<lambda>r. record_id (vrecord r) = record_id (vrecord result)) boostedResults;
          originalScore = (case originalVector of Some r \<Rightarrow> score r | None \<Rightarrow> 0)
      in \<lparr>vrecord = vrecord result, score = score result,
          combinedScore = score result,
          vectorScore = originalScore,
          keywordScore = (case boosted of Some b \<Rightarrow> score b - originalScore | None \<Rightarrow> 0),
          fromFallback = None\<rparr>)"

text \<open>
  \<open>embedQuery\<close> (the embedder), \<open>boostKeywordMatches\<close> and the cross-encoder are
  parameters. A failure of the reranker is caught and the boosted results are sliced.
\<close>

definition hybridSearch ::
  "(string \<Rightarrow> error + real list) \<Rightarrow> (string \<Rightarrow> SearchResult list \<Rightarrow> SearchResult list)
     \<Rightarrow> (string \<Rightarrow> SearchResult list \<Rightarrow> error + real list)
     \<Rightarrow> string \<Rightarrow> VectorStore \<Rightarrow> SearchOptions \<Rightarrow> error + HybridSearchResult list" where
  "hybridSearch embedQuery boostKeywordMatches crossEncoder query store options =
     (let limit' = (case limit options of None \<Rightarrow> DEFAULT_LIMIT | Some l \<Rightarrow> l);
          rerankOn = (case useReranking options of None \<Rightarrow> True | Some b \<Rightarrow> b);
          multiplier = (case candidateMultiplier options of
                          None \<Rightarrow> DEFAULT_CANDIDATE_MULTIPLIER | Some m \<Rightarrow> m);
          fallback = (case fallbackToKeywordSearch options of None \<Rightarrow> True | Some b \<Rightarrow> b)
      in case isEmpty store of
           Inl e \<Rightarrow> Inl e
         | Inr True \<Rightarrow> Inr []
         | Inr False \<Rightarrow>
             (case embedQuery query of
                Inl err \<Rightarrow>
                  if fallback \<and> isEmbeddingError err then
                    (case keywordOnlySearch query store options of
                       Inl e \<Rightarrow> Inl e
                     | Inr keywordResults \<Rightarrow> Inr (map fallback_result keywordResults))
                  else Inl EmbeddingGenerationError
              | Inr queryVector \<Rightarrow>
                  (let candidateCount = (if rerankOn then limit' * multiplier else limit') in
                   case buildSafeFilter options of
                     Inl e \<Rightarrow> Inl e
                   | Inr flt \<Rightarrow>
                       (case vectorSearch store queryVector candidateCount flt of
                          Inl e \<Rightarrow> Inl e
                        | Inr vectorResults \<Rightarrow>
                            if length vectorResults = 0 then Inr []
                            else
                              (let boostedResults = boostKeywordMatches query vectorResults;
                                   finalResults =
                                     (if rerankOn \<and> int (length boostedResults) > limit' then
                                        (case rerank crossEncoder query boostedResults limit' of
                                           Inr reranked \<Rightarrow> reranked
                                         | Inl e \<Rightarrow> slice0 boostedResults limit')
                                      else slice0 boostedResults limit')
                               in Inr (map (hybrid_result vectorResults boostedResults)
                                         finalResults))))))"

section \<open>LRU cache (src/utils/cache.ts)\<close>

text \<open>
  The \<^verbatim>\<open>Map\<close> of the source keeps its keys in insertion order: it is a list of pairs with
  distinct keys, the oldest first. \<^verbatim>\<open>Date.now()\<close> is an argument of each operation that
  reads the clock.
\<close>

record 'v CacheEntry =
  entry_value :: 'v
  timestamp :: int

record 'v LRUCache =
  cache :: "(string \<times> 'v CacheEntry) list"
  maxSize :: int
  ttlMs :: "int option"

definition map_has :: "(string \<times> 'e) list \<Rightarrow> string \<Rightarrow> bool" where
  "map_has m k = (map_of m k \<noteq> None)"

definition map_delete :: "string \<Rightarrow> (string \<times> 'e) list \<Rightarrow> (string \<times> 'e) list" where
  "map_delete k m = filter (\<lambda>p. fst p \<noteq> k) m"

text \<open>\<^verbatim>\<open>Map.prototype.set\<close>: a present key keeps its place, a new key goes to the end.\<close>

definition map_set :: "string \<Rightarrow> 'e \<Rightarrow> (string \<times> 'e) list \<Rightarrow> (string \<times> 'e) list" where
  "map_set k e m =
     (if map_has m k then map (\<lambda>p. if fst p = k then (k, e) else p) m else m @ [(k, e)])"

definition new_LRUCache :: "int option \<Rightarrow> int option \<Rightarrow> 'v LRUCache" where
  "new_LRUCache maxSizeOption ttlOption =
     \<lparr>cache = [],
      maxSize = (case maxSizeOption of None \<Rightarrow> 100 | Some n \<Rightarrow> n),
      ttlMs = ttlOption\<rparr>"

definition expired :: "'v LRUCache \<Rightarrow> int \<Rightarrow> 'v CacheEntry \<Rightarrow> bool" where
  "expired c now entry =
     (case ttlMs c of None \<Rightarrow> False | Some ttl \<Rightarrow> now - timestamp entry > ttl)"

definition lru_get :: "int \<Rightarrow> string \<Rightarrow> 'v LRUCache \<Rightarrow> 'v option \<times> 'v LRUCache" where
  "lru_get now key c =
     (case map_of (cache c) key of
        None \<Rightarrow> (None, c)
      | Some entry \<Rightarrow>
          if expired c now entry then (None, c\<lparr>cache := map_delete key (cache c)\<rparr>)
          else (Some (entry_value entry),
                c\<lparr>cache := map_set key entry (map_delete key (cache c))\<rparr>))"

definition lru_set :: "int \<Rightarrow> string \<Rightarrow> 'v \<Rightarrow> 'v LRUCache \<Rightarrow> 'v LRUCache" where
  "lru_set now key v c =
     (let m1 = (if map_has (cache c) key then map_delete key (cache c) else cache c);
          m2 = (if int (length m1) \<ge> maxSize c then
                  (case m1 of [] \<Rightarrow> m1 | oldest # rest \<Rightarrow> map_delete (fst oldest) m1)
                else m1)
      in c\<lparr>cache := map_set key \<lparr>entry_value = v, timestamp = now\<rparr> m2\<rparr>)"

definition lru_has :: "int \<Rightarrow> string \<Rightarrow> 'v LRUCache \<Rightarrow> bool \<times> 'v LRUCache" where
  "lru_has now key c =
     (case map_of (cache c) key of
        None \<Rightarrow> (False, c)
      | Some entry \<Rightarrow>
          if expired c now entry then (False, c\<lparr>cache := map_delete key (cache c)\<rparr>)
          else (True, c))"

definition lru_delete :: "string \<Rightarrow> 'v LRUCache \<Rightarrow> bool \<times> 'v LRUCache" where
  "lru_delete key c = (map_has (cache c) key, c\<lparr>cache := map_delete key (cache c)\<rparr>)"

definition lru_clear :: "'v LRUCache \<Rightarrow> 'v LRUCache" where
  "lru_clear c = c\<lparr>cache := []\<rparr>"

definition lru_size :: "'v LRUCache \<Rightarrow> int" where
  "lru_size c = int (length (cache c))"

text \<open>A call of one of the methods, and the cache after a sequence of calls.\<close>

datatype 'v cache_op =
    Get int string
  | Set int string 'v
  | Has int string
  | Delete string
  | Clear

fun apply_op :: "'v cache_op \<Rightarrow> 'v LRUCache \<Rightarrow> 'v LRUCache" where
  "apply_op (Get now key) c = snd (lru_get now key c)"
| "apply_op (Set now key v) c = lru_set now key v c"
| "apply_op (Has now key) c = snd (lru_has now key c)"
| "apply_op (Delete key) c = snd (lru_delete key c)"
| "apply_op Clear c = lru_clear c"

definition run_ops :: "'v cache_op list \<Rightarrow> 'v LRUCache \<Rightarrow> 'v LRUCache" where
  "run_ops ops c = foldl (\<lambda>s op. apply_op op s) c ops"

section \<open>Notions of the specification and concrete inputs\<close>

text \<open>The Windows spelling of a path: every slash written as a backslash.\<close>

definition to_backslashes :: "string \<Rightarrow> string" where
  "to_backslashes p = replace_chars (\<lambda>c. c = CHR ''/'') backslash p"

text \<open>Equality of two strings up to the case of their letters.\<close>

definition ci_equal :: "string \<Rightarrow> string \<Rightarrow> bool" where
  "ci_equal a b = list_all2 (\<lambda>x y. lower_char x = lower_char y) a b"

text \<open>A value the whitelist rejects: a character outside it, or more than 500 characters.\<close>

definition unsafe_value :: "string \<Rightarrow> bool" where
  "unsafe_value s = (list_ex (\<lambda>c. \<not> is_safe_char c) s \<or> length s > 500)"

text \<open>The three forms of a condition, and a string held between its two quotes.\<close>

definition like_prefix_form :: "string \<Rightarrow> string" where
  "like_prefix_form s = ''id LIKE '' @ [quote] @ s @ ''%'' @ [quote]"

definition like_suffix_form :: "string \<Rightarrow> string" where
  "like_suffix_form s = ''id LIKE '' @ [quote] @ ''%'' @ s @ [quote]"

definition language_form :: "string \<Rightarrow> string" where
  "language_form l = ''language = '' @ [quote] @ l @ [quote]"

text \<open>
  A condition of a predicate: one of the three forms, around a whitelisted pattern of at
  most 500 characters or a language name of lower-case letters.
\<close>

definition is_condition :: "string \<Rightarrow> bool" where
  "is_condition c =
     ((\<exists>s. s \<noteq> [] \<and> list_all is_safe_char s \<and> length s \<le> 500
           \<and> (c = like_prefix_form s \<or> c = like_suffix_form s))
      \<or> (\<exists>l. l \<noteq> [] \<and> list_all is_lower l \<and> c = language_form l))"

text \<open>Two injection payloads of the test corpus.\<close>

definition or_payload :: string where
  "or_payload = [quote] @ '' OR '' @ [quote] @ ''1'' @ [quote] @ ''='' @ [quote] @ ''1''"

definition drop_payload :: string where
  "drop_payload = [quote] @ ''; DROP TABLE--''"

text \<open>Records, a store holding them, and collaborators for the examples.\<close>

definition demo_hit :: "string \<Rightarrow> SearchResult" where
  "demo_hit i =
     \<lparr>vrecord = \<lparr>record_id = i, filePath = ''src/app.ts'', language = ''typescript'',
                 content = ''function app() {}''\<rparr>,
      score = 1\<rparr>"

definition demo_store :: VectorStore where
  "demo_store =
     \<lparr>isEmpty = Inr False,
      fullTextSearch =
        (\<lambda>q k. Inr (take (nat k) [demo_hit ''src_app_ts_L1'', demo_hit ''src_app_ts_L9''])),
      vectorSearch = (\<lambda>v k f. Inr (replicate (nat k) (demo_hit ''src_app_ts_L1'')))\<rparr>"

definition failing_store :: VectorStore where
  "failing_store = demo_store\<lparr>fullTextSearch := (\<lambda>q k. Inl StoreError)\<rparr>"

definition failing_embedder :: "string \<Rightarrow> error + real list" where
  "failing_embedder q = Inl ModelLoadError"

definition constant_embedder :: "string \<Rightarrow> error + real list" where
  "constant_embedder q = Inr [1, 0, 0]"

definition identity_boost :: "string \<Rightarrow> SearchResult list \<Rightarrow> SearchResult list" where
  "identity_boost q rs = rs"

definition failing_cross_encoder :: "string \<Rightarrow> SearchResult list \<Rightarrow> error + real list" where
  "failing_cross_encoder q rs = Inl OtherError"

definition default_options :: SearchOptions where
  "default_options =
     \<lparr>path = None, filePattern = None, limit = None, useReranking = None,
      candidateMultiplier = None, fallbackToKeywordSearch = None\<rparr>"

text \<open>The \<open>Set\<close> calls for a list of (time, key, value), the key and the entry of each.\<close>

definition sets :: "(int \<times> string \<times> 'v) list \<Rightarrow> 'v cache_op list" where
  "sets kvs = map (\<lambda>(t, k, v). Set t k v) kvs"

definition key_of :: "int \<times> string \<times> 'v \<Rightarrow> string" where
  "key_of x = fst (snd x)"

definition entry_of :: "int \<times> string \<times> 'v \<Rightarrow> string \<times> 'v CacheEntry" where
  "entry_of x = (fst (snd x), \<lparr>entry_value = snd (snd x), timestamp = fst x\<rparr>)"

text \<open>Three entries that fill a cache of capacity 3, and a fourth.\<close>

definition first_three :: "(int \<times> string \<times> nat) list" where
  "first_three = [(0, ''key1'', 1), (0, ''key2'', 2), (0, ''key3'', 3)]"

definition fourth :: "int \<times> string \<times> nat" where
  "fourth = (2, ''key4'', 4)"

text \<open>A short run on a cache of numbers.\<close>

definition demo_cache_ops :: "nat cache_op list" where
  "demo_cache_ops = [Set 0 ''a'' 1, Set 1 ''b'' 2, Get 2 ''a'']"

text \<open>An entry set at the time \<open>fst x\<close> has not expired at the time \<open>t\<close>.\<close>

definition live :: "int option \<Rightarrow> int \<Rightarrow> int \<times> string \<times> 'v \<Rightarrow> bool" where
  "live ttl t x = (case ttl of None \<Rightarrow> True | Some d \<Rightarrow> t - fst x \<le> d)"

text \<open>The invariant of a cache of capacity \<open>N\<close>: distinct keys, at most \<open>N\<close> of them.\<close>

definition cache_inv :: "int \<Rightarrow> 'v LRUCache \<Rightarrow> bool" where
  "cache_inv N c =
     (distinct (map fst (cache c)) \<and> int (length (cache c)) \<le> N \<and> maxSize c = N)"

section \<open>Strings: helper lemmas\<close>

lemma startsWith_iff: "startsWith s p \<longleftrightarrow> (\<exists>rest. s = p @ rest)"
  by (induction s p rule: startsWith.induct) auto

lemma map_eq_all2: "map f a = map f b \<longleftrightarrow> list_all2 (\<lambda>x y. f x = f y) a b"
  by (induction a arbitrary: b) (auto simp: list_all2_Cons1)

lemma ci_equal_iff: "ci_equal a b \<longleftrightarrow> toLowerCase a = toLowerCase b"
  by (simp add: ci_equal_def toLowerCase_def map_eq_all2)

lemma startsWith_lower:
  "startsWith (toLowerCase s) (toLowerCase p) \<longleftrightarrow> (\<exists>pre rest. s = pre @ rest \<and> ci_equal pre p)"
proof
  assume "startsWith (toLowerCase s) (toLowerCase p)"
  then obtain rest where "map lower_char s = map lower_char p @ rest"
    by (auto simp: startsWith_iff toLowerCase_def)
  then obtain us vs where "s = us @ vs" "map lower_char p = map lower_char us"
    by (auto simp: map_eq_append_conv)
  then show "\<exists>pre rest. s = pre @ rest \<and> ci_equal pre p"
    by (auto simp: ci_equal_iff toLowerCase_def)
next
  assume "\<exists>pre rest. s = pre @ rest \<and> ci_equal pre p"
  then show "startsWith (toLowerCase s) (toLowerCase p)"
    by (auto simp: startsWith_iff ci_equal_iff toLowerCase_def)
qed

section \<open>Path containment\<close>

lemma isWithinRoot_posix_iff:
  "isWithinRoot Posix resolve t r \<longleftrightarrow>
     resolve [r, t] = resolve [r] \<or> (\<exists>rest. resolve [r, t] = resolve [r] @ ''/'' @ rest)"
  by (auto simp: isWithinRoot_def path_sep_def startsWith_iff Let_def)

lemma isWithinRoot_win32_iff:
  "isWithinRoot Win32 resolve t r \<longleftrightarrow>
     ci_equal (resolve [r, t]) (resolve [r])
     \<or> (\<exists>pre rest. resolve [r, t] = pre @ rest \<and> ci_equal pre (resolve [r] @ [backslash]))"
proof -
  have "isWithinRoot Win32 resolve t r \<longleftrightarrow>
      startsWith (toLowerCase (resolve [r, t])) (toLowerCase (resolve [r] @ [backslash]))
      \<or> toLowerCase (resolve [r, t]) = toLowerCase (resolve [r])"
    by (simp add: isWithinRoot_def Let_def path_sep_def toLowerCase_def)
  then show ?thesis
    unfolding startsWith_lower ci_equal_iff by blast
qed

lemmas posix_eval = isWithinRoot_def posix_resolve_def normalizeString_def path_sep_def

text \<open>
  Claim C3. For every test path and root directory, \<open>isWithinRoot\<close> is true exactly when
  the resolution of the test path against the root equals the resolved root or begins
  with the resolved root followed by the path separator; the comparison ignores the case
  of letters on Windows and respects it elsewhere. With the POSIX resolution, whatever
  the working directory, \<^verbatim>\<open>../../../etc/passwd\<close> and \<^verbatim>\<open>/home/user/project2\<close> are outside
  \<^verbatim>\<open>/home/user/project\<close> and \<^verbatim>\<open>/home/user/project/src\<close> is inside.
\<close>

theorem isWithinRoot_resolved_prefix:
  "(isWithinRoot Posix resolve t r \<longleftrightarrow>
      resolve [r, t] = resolve [r] \<or> (\<exists>rest. resolve [r, t] = resolve [r] @ ''/'' @ rest))
   \<and> (isWithinRoot Win32 resolve t r \<longleftrightarrow>
      ci_equal (resolve [r, t]) (resolve [r])
      \<or> (\<exists>pre rest. resolve [r, t] = pre @ rest \<and> ci_equal pre (resolve [r] @ [backslash])))
   \<and> isWithinRoot Posix (posix_resolve cwd) ''../../../etc/passwd'' ''/home/user/project'' = False
   \<and> isWithinRoot Posix (posix_resolve cwd) ''/home/user/project/src'' ''/home/user/project'' = True
   \<and> isWithinRoot Posix (posix_resolve cwd) ''/home/user/project2'' ''/home/user/project'' = False"
proof (intro conjI)
  show "isWithinRoot Posix resolve t r \<longleftrightarrow>
      resolve [r, t] = resolve [r] \<or> (\<exists>rest. resolve [r, t] = resolve [r] @ ''/'' @ rest)"
    by (rule isWithinRoot_posix_iff)
  show "isWithinRoot Win32 resolve t r \<longleftrightarrow>
      ci_equal (resolve [r, t]) (resolve [r])
      \<or> (\<exists>pre rest. resolve [r, t] = pre @ rest \<and> ci_equal pre (resolve [r] @ [backslash]))"
    by (rule isWithinRoot_win32_iff)
  show "isWithinRoot Posix (posix_resolve cwd) ''../../../etc/passwd'' ''/home/user/project'' = False"
    by (simp add: posix_eval)
  show "isWithinRoot Posix (posix_resolve cwd) ''/home/user/project/src'' ''/home/user/project'' = True"
    by (simp add: posix_eval)
  show "isWithinRoot Posix (posix_resolve cwd) ''/home/user/project2'' ''/home/user/project'' = False"
    by (simp add: posix_eval)
qed

theorem isWithinRoot_resolved_prefix_witness:
  "isWithinRoot Posix (posix_resolve ''/work'') ''src/utils'' ''/home/user/project''
   \<and> (\<exists>rest. posix_resolve ''/work'' [''/home/user/project'', ''src/utils'']
               = posix_resolve ''/work'' [''/home/user/project''] @ ''/'' @ rest)"
proof -
  have inside: "isWithinRoot Posix (posix_resolve ''/work'') ''src/utils'' ''/home/user/project''"
    by (simp add: posix_eval)
  have differ: "posix_resolve ''/work'' [''/home/user/project'', ''src/utils'']
                  \<noteq> posix_resolve ''/work'' [''/home/user/project'']"
    by (simp add: posix_resolve_def normalizeString_def)
  note inst = isWithinRoot_resolved_prefix [of "posix_resolve ''/work''" "''src/utils''"
      "''/home/user/project''" "''/work''"]
  from inst have "isWithinRoot Posix (posix_resolve ''/work'') ''src/utils'' ''/home/user/project'' \<longleftrightarrow>
      posix_resolve ''/work'' [''/home/user/project'', ''src/utils''] = posix_resolve ''/work'' [''/home/user/project'']
      \<or> (\<exists>rest. posix_resolve ''/work'' [''/home/user/project'', ''src/utils'']
               = posix_resolve ''/work'' [''/home/user/project''] @ ''/'' @ rest)"
    by (rule conjunct1)
  with inside differ show ?thesis by (simp only: simp_thms)
qed

section \<open>Chunk identifiers\<close>

lemma number_42: "number_to_string 42 = ''42''"
  by (simp add: number_to_string_def digits.simps digit_char_def)

lemma replace_seps_after_respelling:
  "replace_chars is_sep CHR ''_'' (replace_chars (\<lambda>c. c = backslash) CHR ''/'' p)
     = replace_chars is_sep CHR ''_'' p"
  "replace_chars is_sep CHR ''_'' (replace_chars (\<lambda>c. c = CHR ''/'') backslash p)
     = replace_chars is_sep CHR ''_'' p"
  by (simp_all add: replace_chars_def is_sep_def)

lemmas chunk_id_eval = pathToChunkId_def replace_chars_def is_sep_def backslash_def

text \<open>
  Claim C7. \<open>pathToChunkId\<close> does not depend on the platform: the spelling of a path
  with slashes and the one with backslashes have the same id, which is the path with
  every separator and every dot replaced by an underscore, then \<^verbatim>\<open>_L\<close>, the start line and
  the suffix. Both spellings of \<^verbatim>\<open>src/utils/index.ts\<close> at line 42 give
  \<^verbatim>\<open>src_utils_index_ts_L42\<close>.
\<close>

theorem pathToChunkId_platform_independent:
  "pathToChunkId (normalizePath p) n sfx = pathToChunkId p n sfx
   \<and> pathToChunkId (to_backslashes p) n sfx = pathToChunkId p n sfx
   \<and> pathToChunkId p n sfx =
       map (\<lambda>c. if c = CHR ''/'' \<or> c = backslash \<or> c = CHR ''.'' then CHR ''_'' else c) p
         @ ''_L'' @ number_to_string n @ sfx
   \<and> pathToChunkId ''src/utils/index.ts'' 42 [] = ''src_utils_index_ts_L42''
   \<and> pathToChunkId (''src'' @ [backslash] @ ''utils'' @ [backslash] @ ''index.ts'') 42 []
       = ''src_utils_index_ts_L42''"
proof (intro conjI)
  show "pathToChunkId (normalizePath p) n sfx = pathToChunkId p n sfx"
    by (simp add: pathToChunkId_def normalizePath_def replace_seps_after_respelling)
  show "pathToChunkId (to_backslashes p) n sfx = pathToChunkId p n sfx"
    by (simp add: pathToChunkId_def to_backslashes_def replace_seps_after_respelling)
  show "pathToChunkId p n sfx =
       map (\<lambda>c. if c = CHR ''/'' \<or> c = backslash \<or> c = CHR ''.'' then CHR ''_'' else c) p
         @ ''_L'' @ number_to_string n @ sfx"
    by (auto simp: pathToChunkId_def replace_chars_def is_sep_def)
  show "pathToChunkId ''src/utils/index.ts'' 42 [] = ''src_utils_index_ts_L42''"
    by (simp add: chunk_id_eval number_42)
  show "pathToChunkId (''src'' @ [backslash] @ ''utils'' @ [backslash] @ ''index.ts'') 42 []
       = ''src_utils_index_ts_L42''"
    by (simp add: chunk_id_eval number_42)
qed

theorem pathToChunkId_platform_independent_witness:
  "pathToChunkId (to_backslashes ''lib/a.b/mod.rs'') 7 ''_p1'' = ''lib_a_b_mod_rs_L7_p1''"
proof -
  have "pathToChunkId ''lib/a.b/mod.rs'' 7 ''_p1'' = ''lib_a_b_mod_rs_L7_p1''"
    by (simp add: chunk_id_eval number_to_string_def digits.simps digit_char_def)
  moreover have "pathToChunkId (to_backslashes ''lib/a.b/mod.rs'') 7 ''_p1''
                  = pathToChunkId ''lib/a.b/mod.rs'' 7 ''_p1''"
    using pathToChunkId_platform_independent [of "''lib/a.b/mod.rs''" 7 "''_p1''"]
    by (elim conjE)
  ultimately show ?thesis by (simp only:)
qed

section \<open>Filter safety\<close>

lemmas char_class_defs = is_safe_char_def is_lower_def is_upper_def is_digit_def code_def
  quote_def is_sep_def backslash_def

lemma safe_char_not_special:
  "is_safe_char c \<Longrightarrow>
     c \<noteq> quote \<and> c \<noteq> CHR '' '' \<and> c \<noteq> CHR '';'' \<and> c \<noteq> CHR ''*'' \<and> c \<noteq> CHR ''?''
     \<and> c \<noteq> CHR ''.'' \<and> \<not> is_sep c"
  by (auto simp: char_class_defs)

lemma lower_is_safe: "is_lower c \<Longrightarrow> is_safe_char c"
  by (simp add: is_safe_char_def)

lemma validate_iff:
  "validateFilterPattern s \<longleftrightarrow> s \<noteq> [] \<and> list_all is_safe_char s \<and> length s \<le> 500"
  by (auto simp: validateFilterPattern_def SAFE_PATTERN_def MAX_FILTER_VALUE_LENGTH_def)

lemma unsafe_not_valid: "unsafe_value s \<Longrightarrow> \<not> validateFilterPattern s"
  by (auto simp: unsafe_value_def validate_iff list_all_iff list_ex_iff)

lemma length_path_to_like: "length (path_to_like p) = length p"
  by (simp add: path_to_like_def replace_chars_def)

lemma unsafe_path_to_like: "unsafe_value (path_to_like p) \<Longrightarrow> unsafe_value p"
  by (auto simp: unsafe_value_def path_to_like_def replace_chars_def list_ex_iff
        is_safe_char_def split: if_splits)

lemma path_conditions_unsafe:
  "unsafe_value (path_to_like p) \<Longrightarrow> path_conditions (Some p) = Inl InvalidFilterError"
proof -
  assume u: "unsafe_value (path_to_like p)"
  then have "p \<noteq> []"
    by (auto simp: unsafe_value_def path_to_like_def replace_chars_def)
  with u show ?thesis
    by (simp add: path_conditions_def buildPathLikeCondition_def sanitizePathPattern_def
          unsafe_not_valid)
qed

lemma file_conditions_unsafe:
  "unsafe_value (glob_to_like p) \<Longrightarrow> extMatch p = None
     \<Longrightarrow> file_conditions (Some p) = Inl InvalidFilterError"
proof -
  assume u: "unsafe_value (glob_to_like p)" and e: "extMatch p = None"
  from u have "p \<noteq> []"
    by (auto simp: unsafe_value_def glob_to_like_def replace_chars_def)
  with u e show ?thesis
    by (simp add: file_conditions_def buildFilePatternCondition_def sanitizeGlobPattern_def
          unsafe_not_valid)
qed

lemma set_replace_double_star:
  "c \<noteq> CHR ''*'' \<Longrightarrow> c \<in> set p \<Longrightarrow> c \<in> set (replace_double_star p)"
  by (induction p rule: replace_double_star.induct) auto

lemma glob_keeps:
  assumes "c \<in> set p" "c \<noteq> CHR ''*''" "c \<noteq> CHR ''?''" "c \<noteq> CHR ''.''" "\<not> is_sep c"
  shows "c \<in> set (glob_to_like p)"
proof -
  have "c \<in> set (replace_double_star p)"
    using assms set_replace_double_star by simp
  then show ?thesis
    using assms by (force simp: glob_to_like_def replace_chars_def)
qed

lemma path_keeps:
  assumes "c \<in> set p" "c \<noteq> CHR ''.''" "\<not> is_sep c"
  shows "c \<in> set (path_to_like p)"
  using assms by (force simp: path_to_like_def replace_chars_def)

lemma special_char_facts:
  assumes "c = quote \<or> c = CHR '' '' \<or> c = CHR '';''"
  shows "\<not> is_safe_char c" "c \<noteq> CHR ''*''" "c \<noteq> CHR ''?''" "c \<noteq> CHR ''.''" "\<not> is_sep c"
    "\<not> is_lower c" "\<not> is_upper c"
  using assms by (auto simp: char_class_defs)

lemma extMatch_chars:
  "extMatch p = Some m \<Longrightarrow> c \<in> set p
     \<Longrightarrow> c = CHR ''*'' \<or> c = CHR ''.'' \<or> is_lower c \<or> is_upper c"
  by (auto simp: extMatch_def list_all_iff split: list.splits if_splits)

lemma special_char_rejected:
  assumes "c \<in> set p" "c = quote \<or> c = CHR '' '' \<or> c = CHR '';''"
  shows "unsafe_value (path_to_like p)" "unsafe_value (glob_to_like p)" "extMatch p = None"
proof -
  note f = special_char_facts [OF assms(2)]
  have "c \<in> set (path_to_like p)" using assms(1) f by (simp add: path_keeps)
  then show "unsafe_value (path_to_like p)"
    using f(1) by (auto simp: unsafe_value_def list_ex_iff)
  have "c \<in> set (glob_to_like p)" using assms(1) f by (simp add: glob_keeps)
  then show "unsafe_value (glob_to_like p)"
    using f(1) by (auto simp: unsafe_value_def list_ex_iff)
  show "extMatch p = None"
  proof (cases "extMatch p")
    case (Some m)
    from extMatch_chars [OF this assms(1)] f show ?thesis by blast
  qed simp
qed

lemma buildSafeFilter_path_error:
  "path_conditions (path options) = Inl e \<Longrightarrow> buildSafeFilter options = Inl e"
  by (simp add: buildSafeFilter_def)

lemma buildSafeFilter_file_error:
  "path options = None \<Longrightarrow> file_conditions (filePattern options) = Inl e
     \<Longrightarrow> buildSafeFilter options = Inl e"
  by (simp add: buildSafeFilter_def path_conditions_def)

text \<open>
  Claim C1, as amended. For every string \<open>p\<close> that, after the replacement of separators
  and dots, contains a character outside the whitelist or has more than 500 characters:
  \<open>buildSafeFilter\<close> with \<open>p\<close> as path raises \<open>InvalidFilterError\<close> and
  \<open>validateFilterPattern p\<close> is false; with \<open>p\<close> as file pattern it raises
  \<open>InvalidFilterError\<close> when \<open>p\<close> is not of the shape \<^verbatim>\<open>*.ext\<close> and its glob translation
  (which also rewrites the wildcards \<^verbatim>\<open>*\<close> and \<^verbatim>\<open>?\<close>) contains a character outside the
  whitelist or has more than 500 characters. Every \<open>p\<close> that contains a quote, a space
  or a semicolon is rejected in all three ways.
\<close>

theorem unsafe_filter_rejected:
  "(unsafe_value (path_to_like p) \<longrightarrow>
      buildSafeFilter \<lparr>path = Some p, filePattern = fp\<rparr> = Inl InvalidFilterError
      \<and> validateFilterPattern p = False
      \<and> (extMatch p = None \<and> unsafe_value (glob_to_like p) \<longrightarrow>
           buildSafeFilter \<lparr>path = None, filePattern = Some p\<rparr> = Inl InvalidFilterError))
   \<and> (quote \<in> set p \<or> CHR '' '' \<in> set p \<or> CHR '';'' \<in> set p \<longrightarrow>
        unsafe_value (path_to_like p)
        \<and> buildSafeFilter \<lparr>path = None, filePattern = Some p\<rparr> = Inl InvalidFilterError)"
proof (intro conjI impI)
  assume u: "unsafe_value (path_to_like p)"
  show "buildSafeFilter \<lparr>path = Some p, filePattern = fp\<rparr> = Inl InvalidFilterError"
    using path_conditions_unsafe [OF u] by (simp add: buildSafeFilter_path_error)
  show "validateFilterPattern p = False"
    using unsafe_path_to_like [OF u] unsafe_not_valid by simp
next
  assume "extMatch p = None \<and> unsafe_value (glob_to_like p)"
  then show "buildSafeFilter \<lparr>path = None, filePattern = Some p\<rparr> = Inl InvalidFilterError"
    using file_conditions_unsafe by (simp add: buildSafeFilter_file_error)
next
  assume "quote \<in> set p \<or> CHR '' '' \<in> set p \<or> CHR '';'' \<in> set p"
  then obtain c where c: "c \<in> set p" "c = quote \<or> c = CHR '' '' \<or> c = CHR '';''"
    by blast
  show "unsafe_value (path_to_like p)"
    by (rule special_char_rejected(1) [OF c])
  show "buildSafeFilter \<lparr>path = None, filePattern = Some p\<rparr> = Inl InvalidFilterError"
    using special_char_rejected(2,3) [OF c] file_conditions_unsafe
    by (simp add: buildSafeFilter_file_error)
qed

lemmas filter_eval = buildSafeFilter_def path_conditions_def file_conditions_def extMatch_def
  buildPathLikeCondition_def buildFilePatternCondition_def buildLanguageCondition_def
  sanitizePathPattern_def sanitizeGlobPattern_def validateFilterPattern_def SAFE_PATTERN_def
  MAX_FILTER_VALUE_LENGTH_def path_to_like_def glob_to_like_def replace_chars_def
  toLowerCase_def lower_char_def EXTENSION_TO_LANGUAGE_def char_class_defs
  like_prefix_form_def like_suffix_form_def language_form_def

theorem unsafe_filter_rejected_witness:
  "unsafe_value (path_to_like or_payload)
   \<and> buildSafeFilter \<lparr>path = Some or_payload, filePattern = None\<rparr> = Inl InvalidFilterError
   \<and> validateFilterPattern or_payload = False
   \<and> buildSafeFilter \<lparr>path = None, filePattern = Some or_payload\<rparr> = Inl InvalidFilterError"
proof -
  have q: "quote \<in> set or_payload"
    by (simp add: or_payload_def)
  from q unsafe_filter_rejected [of or_payload None] show ?thesis by blast
qed

text \<open>
  The claim C1 as first stated fails for a file pattern with glob wildcards: \<^verbatim>\<open>*.ts\<close>
  keeps its star under the replacement of separators and dots, and as a file pattern it
  is accepted and translated to a language condition.
\<close>

theorem glob_star_counterexample:
  "unsafe_value (path_to_like ''*.ts'')
   \<and> buildSafeFilter \<lparr>path = None, filePattern = Some ''*.ts''\<rparr>
       = Inr (Some (language_form ''typescript''))"
proof (intro conjI)
  show "unsafe_value (path_to_like ''*.ts'')"
    by (simp add: unsafe_value_def path_to_like_def replace_chars_def char_class_defs)
  show "buildSafeFilter \<lparr>path = None, filePattern = Some ''*.ts''\<rparr>
       = Inr (Some (language_form ''typescript''))"
    by (simp add: filter_eval)
qed

text \<open>
  Claim C5. A file pattern \<^verbatim>\<open>*.ext\<close> with an extension of the table gives the language
  condition, \<^verbatim>\<open>language = 'typescript'\<close> for \<^verbatim>\<open>*.ts\<close>. With an extension outside the
  table the claim expects the generic condition, which for \<^verbatim>\<open>*.java\<close> would be
  \<^verbatim>\<open>id LIKE '%%_java'\<close>; the code pushes no condition at all, and the filter is absent.
\<close>

theorem unknown_extension_dropped:
  "buildSafeFilter \<lparr>path = None, filePattern = Some ''*.java''\<rparr> = Inr None
   \<and> buildFilePatternCondition ''*.java'' = Inr (like_suffix_form ''%_java'')
   \<and> buildSafeFilter \<lparr>path = None, filePattern = Some ''*.ts''\<rparr>
       = Inr (Some (language_form ''typescript''))"
proof (intro conjI)
  show "buildSafeFilter \<lparr>path = None, filePattern = Some ''*.java''\<rparr> = Inr None"
    by (simp add: filter_eval)
  show "buildFilePatternCondition ''*.java'' = Inr (like_suffix_form ''%_java'')"
    by (simp add: filter_eval)
  show "buildSafeFilter \<lparr>path = None, filePattern = Some ''*.ts''\<rparr>
       = Inr (Some (language_form ''typescript''))"
    by (simp add: filter_eval)
qed

section \<open>Shape of the predicate\<close>

lemma path_conditions_shape:
  "path_conditions po = Inr cs
     \<Longrightarrow> cs = [] \<or> (\<exists>s. validateFilterPattern s \<and> cs = [like_prefix_form s])"
  by (auto simp: path_conditions_def buildPathLikeCondition_def sanitizePathPattern_def
        like_prefix_form_def Let_def split: option.splits if_splits sum.splits)

lemma file_conditions_shape:
  "file_conditions fo = Inr cs
     \<Longrightarrow> cs = [] \<or> (\<exists>s. validateFilterPattern s \<and> cs = [like_suffix_form s])
         \<or> (\<exists>l. l \<noteq> [] \<and> list_all is_lower l \<and> cs = [language_form l])"
  by (auto simp: file_conditions_def buildFilePatternCondition_def sanitizeGlobPattern_def
        buildLanguageCondition_def like_suffix_form_def language_form_def Let_def
        split: option.splits if_splits sum.splits)

lemma no_quote_in_safe: "list_all is_safe_char s \<Longrightarrow> filter (\<lambda>x. x = quote) s = []"
  by (induction s) (auto dest: safe_char_not_special)

lemma no_semicolon_in_safe: "list_all is_safe_char s \<Longrightarrow> CHR '';'' \<notin> set s"
  by (auto simp: list_all_iff dest: safe_char_not_special)

lemma all_lower_safe: "list_all is_lower l \<Longrightarrow> list_all is_safe_char l"
  by (auto simp: list_all_iff lower_is_safe)

lemma form_quotes:
  assumes "list_all is_safe_char s"
  shows "filter (\<lambda>x. x = quote) (like_prefix_form s) = [quote, quote]"
    and "filter (\<lambda>x. x = quote) (like_suffix_form s) = [quote, quote]"
    and "filter (\<lambda>x. x = quote) (language_form s) = [quote, quote]"
    and "CHR '';'' \<notin> set (like_prefix_form s)"
    and "CHR '';'' \<notin> set (like_suffix_form s)"
    and "CHR '';'' \<notin> set (language_form s)"
  using no_quote_in_safe [OF assms] no_semicolon_in_safe [OF assms]
  by (simp_all add: like_prefix_form_def like_suffix_form_def language_form_def quote_def)

lemma path_conditions_ok:
  "path_conditions po = Inr cs \<Longrightarrow> length cs \<le> 1 \<and> list_all is_condition cs"
  using path_conditions_shape [of po cs]
  by (auto simp: is_condition_def validate_iff)

lemma file_conditions_ok:
  "file_conditions fo = Inr cs \<Longrightarrow> length cs \<le> 1 \<and> list_all is_condition cs"
  using file_conditions_shape [of fo cs]
  by (auto simp: is_condition_def validate_iff)

lemma condition_quotes:
  "is_condition c \<Longrightarrow> filter (\<lambda>x. x = quote) c = [quote, quote] \<and> CHR '';'' \<notin> set c"
  unfolding is_condition_def using form_quotes all_lower_safe by blast

lemma join_quotes:
  "list_all is_condition cs \<Longrightarrow>
     length (filter (\<lambda>x. x = quote) (join '' AND '' cs)) = 2 * length cs
     \<and> CHR '';'' \<notin> set (join '' AND '' cs)"
proof (induction "'' AND ''" cs rule: join.induct)
  case 1
  then show ?case by simp
next
  case (2 x)
  then show ?case using condition_quotes [of x] by simp
next
  case (3 x y ys)
  then show ?case using condition_quotes [of x] by (simp add: quote_def)
qed

lemma buildSafeFilter_conditions:
  assumes "buildSafeFilter options = Inr (Some pred)"
  shows "\<exists>conds. conds \<noteq> [] \<and> length conds \<le> 2 \<and> pred = join '' AND '' conds
           \<and> list_all is_condition conds"
proof -
  from assms obtain cs1 cs2 where
    c1: "path_conditions (path options) = Inr cs1" and
    c2: "file_conditions (filePattern options) = Inr cs2" and
    ne: "cs1 @ cs2 \<noteq> []" and
    p: "pred = join '' AND '' (cs1 @ cs2)"
    by (auto simp: buildSafeFilter_def Let_def split: sum.splits if_splits)
  from path_conditions_ok [OF c1] file_conditions_ok [OF c2]
  have "length (cs1 @ cs2) \<le> 2" "list_all is_condition (cs1 @ cs2)"
    by simp_all
  with ne p show ?thesis by blast
qed

text \<open>
  Claim C2. Every predicate that \<open>buildSafeFilter\<close> returns is the join with
  \<^verbatim>\<open> AND \<close> of one or more conditions, each of the form \<^verbatim>\<open>id LIKE '<s>%'\<close>,
  \<^verbatim>\<open>id LIKE '%<s>'\<close> or \<^verbatim>\<open>language = '<l>'\<close>, with \<open>s\<close> a non-empty string of
  whitelisted characters of length at most 500 and \<open>l\<close> a non-empty string of lower-case
  letters. Hence the quotes of the predicate are the two delimiters of each condition,
  and no semicolon occurs in it.
\<close>

theorem buildSafeFilter_predicate_shape:
  assumes "buildSafeFilter options = Inr (Some pred)"
  shows "\<exists>conds. conds \<noteq> [] \<and> pred = join '' AND '' conds
           \<and> (\<forall>c \<in> set conds. is_condition c)
           \<and> length (filter (\<lambda>x. x = quote) pred) = 2 * length conds
           \<and> CHR '';'' \<notin> set pred"
proof -
  from buildSafeFilter_conditions [OF assms] obtain conds where
    c: "conds \<noteq> []" "pred = join '' AND '' conds" "list_all is_condition conds"
    by blast
  from join_quotes [OF c(3)] c show ?thesis
    by (auto simp: list_all_iff)
qed

theorem buildSafeFilter_predicate_shape_witness:
  "\<exists>conds. conds \<noteq> []
      \<and> like_prefix_form ''src_test'' @ '' AND '' @ language_form ''typescript''
          = join '' AND '' conds
      \<and> list_all is_condition conds
      \<and> length (filter (\<lambda>x. x = quote)
           (like_prefix_form ''src_test'' @ '' AND '' @ language_form ''typescript''))
          = 2 * length conds"
proof -
  have built: "buildSafeFilter \<lparr>path = Some ''src/test'', filePattern = Some ''*.ts''\<rparr>
      = Inr (Some (like_prefix_form ''src_test'' @ '' AND '' @ language_form ''typescript''))"
    by (simp add: filter_eval)
  from buildSafeFilter_predicate_shape [OF built] show ?thesis
    by (simp only: list_all_iff) blast
qed

section \<open>The filter of the keyword fallback\<close>

lemmas apply_eval = applyFilter_def keep_result_def id_like_at_def language_at_def
  match_quoted_def rx_of_char_def is_rx_syntax_def is_space_def is_line_terminator_def
  demo_hit_def Let_def

text \<open>
  Claim C6. The claim expects \<open>applyFilter\<close> to keep a record exactly when the record
  satisfies the predicate under SQL semantics. The code anchors its regular expression at
  the start only and reads only the first \<^verbatim>\<open>id LIKE\<close> condition. For the file pattern
  \<^verbatim>\<open>**/*.test.ts\<close> the predicate is \<^verbatim>\<open>id LIKE '%%_%_test_ts'\<close>: the id
  \<^verbatim>\<open>src_auth_test_ts_L10\<close> does not match it as a whole, and \<open>applyFilter\<close> keeps the
  record. With the path \<^verbatim>\<open>src\<close> added, the record of id \<^verbatim>\<open>src_app_ts_L1\<close> satisfies the
  first condition only, and \<open>applyFilter\<close> keeps it.
\<close>

theorem applyFilter_not_sql_like:
  "buildSafeFilter \<lparr>path = None, filePattern = Some ''**/*.test.ts''\<rparr>
     = Inr (Some (like_suffix_form ''%_%_test_ts''))
   \<and> applyFilter [demo_hit ''src_auth_test_ts_L10''] (like_suffix_form ''%_%_test_ts'')
     = Some [demo_hit ''src_auth_test_ts_L10'']
   \<and> sql_like ''%%_%_test_ts'' ''src_auth_test_ts_L10'' = False
   \<and> buildSafeFilter \<lparr>path = Some ''src'', filePattern = Some ''**/*.test.ts''\<rparr>
     = Inr (Some (like_prefix_form ''src'' @ '' AND '' @ like_suffix_form ''%_%_test_ts''))
   \<and> applyFilter [demo_hit ''src_app_ts_L1'']
       (like_prefix_form ''src'' @ '' AND '' @ like_suffix_form ''%_%_test_ts'')
     = Some [demo_hit ''src_app_ts_L1'']
   \<and> sql_like ''src%'' ''src_app_ts_L1'' = True
   \<and> sql_like ''%%_%_test_ts'' ''src_app_ts_L1'' = False"
proof (intro conjI)
  show "buildSafeFilter \<lparr>path = None, filePattern = Some ''**/*.test.ts''\<rparr>
     = Inr (Some (like_suffix_form ''%_%_test_ts''))"
    by (simp add: filter_eval)
  show "applyFilter [demo_hit ''src_auth_test_ts_L10''] (like_suffix_form ''%_%_test_ts'')
     = Some [demo_hit ''src_auth_test_ts_L10'']"
    by (simp add: apply_eval filter_eval)
  show "sql_like ''%%_%_test_ts'' ''src_auth_test_ts_L10'' = False"
    by simp
  show "buildSafeFilter \<lparr>path = Some ''src'', filePattern = Some ''**/*.test.ts''\<rparr>
     = Inr (Some (like_prefix_form ''src'' @ '' AND '' @ like_suffix_form ''%_%_test_ts''))"
    by (simp add: filter_eval)
  show "applyFilter [demo_hit ''src_app_ts_L1'']
       (like_prefix_form ''src'' @ '' AND '' @ like_suffix_form ''%_%_test_ts'')
     = Some [demo_hit ''src_app_ts_L1'']"
    by (simp add: apply_eval filter_eval)
  show "sql_like ''src%'' ''src_app_ts_L1'' = True"
    by simp
  show "sql_like ''%%_%_test_ts'' ''src_app_ts_L1'' = False"
    by simp
qed

section \<open>Hybrid search: fallback and limit\<close>

lemma slice0_length: "0 \<le> n \<Longrightarrow> int (length (slice0 xs n)) \<le> n"
  by (simp add: slice0_def)

lemma slice0_subset: "set (slice0 xs n) \<subseteq> set xs"
  by (auto simp: slice0_def dest: in_set_takeD)

lemma rerank_length:
  "rerank crossEncoder query candidates k = Inr rs \<Longrightarrow> 0 \<le> k \<Longrightarrow> int (length rs) \<le> k"
  by (auto simp: rerank_def split: sum.splits)

lemma safe_not_rx_syntax: "is_safe_char c \<Longrightarrow> \<not> is_rx_syntax c"
  by (auto simp: char_class_defs is_rx_syntax_def)

lemma form_no_rx_syntax:
  assumes "list_all is_safe_char s"
  shows "list_all (\<lambda>c. \<not> is_rx_syntax c) (like_prefix_form s)"
    and "list_all (\<lambda>c. \<not> is_rx_syntax c) (like_suffix_form s)"
    and "list_all (\<lambda>c. \<not> is_rx_syntax c) (language_form s)"
proof -
  from assms have s: "list_all (\<lambda>c. \<not> is_rx_syntax c) s"
    by (auto simp: list_all_iff safe_not_rx_syntax)
  show "list_all (\<lambda>c. \<not> is_rx_syntax c) (like_prefix_form s)"
    using s by (simp add: like_prefix_form_def is_rx_syntax_def quote_def backslash_def)
  show "list_all (\<lambda>c. \<not> is_rx_syntax c) (like_suffix_form s)"
    using s by (simp add: like_suffix_form_def is_rx_syntax_def quote_def backslash_def)
  show "list_all (\<lambda>c. \<not> is_rx_syntax c) (language_form s)"
    using s by (simp add: language_form_def is_rx_syntax_def quote_def backslash_def)
qed

lemma condition_no_rx_syntax:
  "is_condition c \<Longrightarrow> list_all (\<lambda>c. \<not> is_rx_syntax c) c"
  unfolding is_condition_def using form_no_rx_syntax all_lower_safe by blast

lemma join_no_rx_syntax:
  "list_all is_condition cs \<Longrightarrow> list_all (\<lambda>c. \<not> is_rx_syntax c) (join '' AND '' cs)"
proof (induction "'' AND ''" cs rule: join.induct)
  case 1
  then show ?case by simp
next
  case (2 x)
  then show ?case by (simp add: condition_no_rx_syntax)
next
  case (3 x y ys)
  then show ?case
    using condition_no_rx_syntax [of x] by (simp add: is_rx_syntax_def backslash_def)
qed

lemma built_filter_no_rx_syntax:
  "buildSafeFilter options = Inr (Some f) \<Longrightarrow> list_all (\<lambda>c. \<not> is_rx_syntax c) f"
  using buildSafeFilter_conditions [of options f] join_no_rx_syntax by blast

lemma match_quoted_subset: "match_quoted s = Some r \<Longrightarrow> set r \<subseteq> set s"
  by (auto simp: match_quoted_def split: list.splits if_splits dest: set_takeWhileD)

lemma id_like_at_subset: "id_like_at s = Some r \<Longrightarrow> set r \<subseteq> set s"
proof -
  assume "id_like_at s = Some r"
  then have "match_quoted (dropWhile is_space (drop 4 (dropWhile is_space (drop 2 s)))) = Some r"
    by (simp add: id_like_at_def split: if_splits)
  then have "set r \<subseteq> set (dropWhile is_space (drop 4 (dropWhile is_space (drop 2 s))))"
    by (rule match_quoted_subset)
  also have "\<dots> \<subseteq> set (drop 4 (dropWhile is_space (drop 2 s)))"
    by (auto dest: set_dropWhileD)
  also have "\<dots> \<subseteq> set (dropWhile is_space (drop 2 s))"
    by (rule set_drop_subset)
  also have "\<dots> \<subseteq> set (drop 2 s)"
    by (auto dest: set_dropWhileD)
  also have "\<dots> \<subseteq> set s"
    by (rule set_drop_subset)
  finally show ?thesis .
qed

lemma first_match_id_like_subset: "first_match id_like_at s = Some r \<Longrightarrow> set r \<subseteq> set s"
proof (induction s)
  case Nil
  then show ?case using id_like_at_subset [of "[]" r] by simp
next
  case (Cons c cs)
  then show ?case
    using id_like_at_subset [of "c # cs" r]
    by (auto split: option.splits)
qed

lemma like_to_regex_total:
  "list_all (\<lambda>c. \<not> is_rx_syntax c) pat \<Longrightarrow> like_to_regex pat \<noteq> None"
  by (induction pat) (auto simp: rx_of_char_def split: option.splits)

lemma applyFilter_built:
  fixes results :: "'a SearchResult_scheme list"
  assumes "buildSafeFilter options = Inr (Some f)"
  shows "\<exists>kept. applyFilter results f = Some kept \<and> set kept \<subseteq> set results"
proof -
  have ok: "list_all (\<lambda>c. \<not> is_rx_syntax c) f"
    by (rule built_filter_no_rx_syntax [OF assms])
  have "keep_result (first_match language_at f) (first_match id_like_at f) r \<noteq> None" 
    for r :: "'a SearchResult_scheme"
  proof (cases "first_match id_like_at f")
    case None
    then show ?thesis by (auto simp: keep_result_def)
  next
    case (Some pat)
    with first_match_id_like_subset [OF Some] ok
    have "list_all (\<lambda>c. \<not> is_rx_syntax c) pat"
      by (auto simp: list_all_iff)
    then have "like_to_regex pat \<noteq> None" by (rule like_to_regex_total)
    with Some show ?thesis by (auto simp: keep_result_def)
  qed
  then show ?thesis
    by (auto simp: applyFilter_def Let_def list_ex_iff)
qed

lemma keywordOnlySearch_ok:
  assumes ne: "isEmpty store = Inr False"
    and flt: "buildSafeFilter options = Inr flt"
    and hits: "fullTextSearch store query ((case limit options of None \<Rightarrow> 10 | Some l \<Rightarrow> l) * 2) = Inr hits"
  shows "\<exists>kept. set kept \<subseteq> set hits
           \<and> keywordOnlySearch query store options
               = Inr (map (\<lambda>result. SearchResult.extend result (KeywordSearchResult.fields True))
                        (slice0 kept (case limit options of None \<Rightarrow> 10 | Some l \<Rightarrow> l)))"
proof (cases "flt = None \<or> flt = Some []")
  case True
  with assms show ?thesis
    by (auto simp: keywordOnlySearch_def Let_def)
next
  case False
  then obtain f where f: "flt = Some f" "f \<noteq> []" by auto
  from applyFilter_built [of options f hits] flt f obtain kept where
    k: "applyFilter hits f = Some kept" "set kept \<subseteq> set hits"
    by auto
  with assms f show ?thesis
    by (auto simp: keywordOnlySearch_def Let_def)
qed

lemma keywordOnlySearch_length:
  assumes "keywordOnlySearch query store options = Inr rs"
    and "0 \<le> (case limit options of None \<Rightarrow> 10 | Some l \<Rightarrow> l)"
  shows "int (length rs) \<le> (case limit options of None \<Rightarrow> 10 | Some l \<Rightarrow> l)"
proof -
  define lim where "lim = (case limit options of None \<Rightarrow> 10 | Some l \<Rightarrow> l)"
  from assms(1) have "rs = [] \<or> (\<exists>xs :: SearchResult list. length rs = length (slice0 xs lim))"
    unfolding keywordOnlySearch_def Let_def lim_def [symmetric]
    by (auto split: sum.splits bool.splits option.splits if_splits)
  with assms(2) slice0_length [of lim] show ?thesis
    unfolding lim_def [symmetric] by auto
qed

lemma vrecord_extend [simp]:
  "vrecord (SearchResult.extend r (KeywordSearchResult.fields b)) = vrecord r"
  by (simp add: SearchResult.defs KeywordSearchResult.defs)

lemma fallback_result_fields [simp]:
  "fromFallback (fallback_result r) = Some True"
  "vrecord (fallback_result r) = vrecord r"
  by (simp_all add: fallback_result_def)

lemma hybridSearch_cases:
  assumes "hybridSearch embedQuery boost ce query store options = Inr results"
  shows "results = []
         \<or> (\<exists>krs. keywordOnlySearch query store options = Inr krs \<and> length results = length krs)
         \<or> (\<exists>cands rr. rerank ce query cands (case limit options of None \<Rightarrow> 10 | Some l \<Rightarrow> l) = Inr rr
                \<and> length results = length rr)
         \<or> (\<exists>xs :: SearchResult list.
                length results = length (slice0 xs (case limit options of None \<Rightarrow> 10 | Some l \<Rightarrow> l)))"
proof -
  define lim where "lim = (case limit options of None \<Rightarrow> 10 | Some l \<Rightarrow> l)"
  have d: "(case limit options of None \<Rightarrow> DEFAULT_LIMIT | Some l \<Rightarrow> l) = lim"
    by (simp add: lim_def DEFAULT_LIMIT_def split: option.splits)
  from assms show ?thesis
    unfolding hybridSearch_def Let_def d lim_def [symmetric]
    by (auto split: sum.splits bool.splits if_splits) blast+
qed

text \<open>
  Claim C8, as amended. Whenever \<open>hybridSearch\<close> returns, it returns at most 10 results
  when no limit is given, and at most \<open>l\<close> results when the limit \<open>l \<ge> 0\<close> is given.
  No ceiling of 50 is applied inside \<open>hybridSearch\<close>.
\<close>

theorem hybridSearch_limit_bound:
  assumes "hybridSearch embedQuery boost ce query store options = Inr results"
  shows "(limit options = None \<longrightarrow> length results \<le> 10)
         \<and> (\<forall>l. limit options = Some l \<and> 0 \<le> l \<longrightarrow> int (length results) \<le> l)"
proof -
  define lim where "lim = (case limit options of None \<Rightarrow> 10 | Some l \<Rightarrow> l)"
  have "int (length results) \<le> lim" if "0 \<le> lim"
    using hybridSearch_cases [OF assms] that
      keywordOnlySearch_length [of query store options] rerank_length [of ce query _ lim]
      slice0_length [of lim]
    unfolding lim_def [symmetric] by (auto simp del: of_nat_le_iff)
  then show ?thesis
    by (auto simp: lim_def)
qed

lemmas hybrid_eval = hybridSearch_def Let_def demo_store_def default_options_def
  constant_embedder_def identity_boost_def failing_cross_encoder_def rerank_def
  slice0_def DEFAULT_CANDIDATE_MULTIPLIER_def DEFAULT_LIMIT_def buildSafeFilter_def
  path_conditions_def file_conditions_def failing_embedder_def failing_store_def
  isEmbeddingError_def keywordOnlySearch_def

theorem hybridSearch_limit_bound_witness:
  "\<exists>results.
     hybridSearch constant_embedder identity_boost failing_cross_encoder ''login'' demo_store
       (default_options\<lparr>limit := Some 2\<rparr>) = Inr results
     \<and> int (length results) \<le> 2"
proof -
  have "\<exists>results.
     hybridSearch constant_embedder identity_boost failing_cross_encoder ''login'' demo_store
       (default_options\<lparr>limit := Some 2\<rparr>) = Inr results"
    by (simp add: hybrid_eval)
  then obtain results where run:
    "hybridSearch constant_embedder identity_boost failing_cross_encoder ''login'' demo_store
       (default_options\<lparr>limit := Some 2\<rparr>) = Inr results"
    by blast
  have "limit (default_options\<lparr>limit := Some 2\<rparr>) = Some 2"
    by simp
  with hybridSearch_limit_bound [OF run] have "int (length results) \<le> 2"
    by simp
  with run show ?thesis by blast
qed

text \<open>
  The claim C8 as first stated fails above the documented ceiling: with the limit 51,
  reranking off and a store that has 51 candidates, \<open>hybridSearch\<close> returns 51 results.
\<close>

theorem no_ceiling_counterexample:
  "map_sum id length
     (hybridSearch constant_embedder identity_boost failing_cross_encoder ''login'' demo_store
        (default_options\<lparr>limit := Some 51, useReranking := Some False\<rparr>))
   = Inr 51"
  by (simp add: hybrid_eval)


text \<open>
  Claim C4, as amended. Let the embedding of the query raise an embedder failure
  (\<open>EmbedderError\<close>, \<open>ModelLoadError\<close> or \<open>EmbeddingGenerationError\<close>) on a store that
  is not empty. With the fallback on (the default): if the filter options are valid, the
  full-text search of the store returns and the limit is not negative, \<open>hybridSearch\<close>
  does not raise and returns at most limit results, each flagged \<open>fromFallback = true\<close>
  and each a record of the full-text hits; if the filter options are invalid it raises
  the error of the filter builder. With the fallback off it raises
  \<open>EmbeddingGenerationError\<close>.
\<close>

theorem hybridSearch_fallback:
  assumes "embedQuery query = Inl err" and "isEmbeddingError err"
    and "isEmpty store = Inr False"
    and "n = (case limit options of None \<Rightarrow> 10 | Some l \<Rightarrow> l)"
  shows "(fallbackToKeywordSearch options \<noteq> Some False
            \<and> buildSafeFilter options = Inr flt
            \<and> fullTextSearch store query (n * 2) = Inr hits \<and> 0 \<le> n
          \<longrightarrow> (\<exists>results.
                 hybridSearch embedQuery boost ce query store options = Inr results
                 \<and> int (length results) \<le> n
                 \<and> list_all (\<lambda>r. fromFallback r = Some True) results
                 \<and> set (map vrecord results) \<subseteq> set (map vrecord hits)))
         \<and> (fallbackToKeywordSearch options \<noteq> Some False
              \<and> buildSafeFilter options = Inl e
            \<longrightarrow> hybridSearch embedQuery boost ce query store options = Inl e)
         \<and> (fallbackToKeywordSearch options = Some False
            \<longrightarrow> hybridSearch embedQuery boost ce query store options
                  = Inl EmbeddingGenerationError)"
proof (intro conjI impI)
  assume a: "fallbackToKeywordSearch options \<noteq> Some False
            \<and> buildSafeFilter options = Inr flt
            \<and> fullTextSearch store query (n * 2) = Inr hits \<and> 0 \<le> n"
  then have fb: "(case fallbackToKeywordSearch options of None \<Rightarrow> True | Some b \<Rightarrow> b)"
    by (auto split: option.splits)
  from a assms(4) have hits: "fullTextSearch store query
      ((case limit options of None \<Rightarrow> 10 | Some l \<Rightarrow> l) * 2) = Inr hits"
    by simp
  from keywordOnlySearch_ok [OF assms(3) _ hits, of flt] a obtain kept where
    k: "set kept \<subseteq> set hits"
       "keywordOnlySearch query store options
          = Inr (map (\<lambda>result. SearchResult.extend result (KeywordSearchResult.fields True))
                   (slice0 kept n))"
    using assms(4) by auto
  let ?krs = "map (\<lambda>result. SearchResult.extend result (KeywordSearchResult.fields True))
                (slice0 kept n)"
  have run: "hybridSearch embedQuery boost ce query store options = Inr (map fallback_result ?krs)"
    using assms(1,2,3) fb k(2) by (simp add: hybridSearch_def Let_def)
  have len: "int (length (map fallback_result ?krs)) \<le> n"
    using a slice0_length [of n kept] by simp
  have flag: "list_all (\<lambda>r. fromFallback r = Some True) (map fallback_result ?krs)"
    by (simp add: list_all_iff)
  have "set (map vrecord (map fallback_result ?krs)) = vrecord ` set (slice0 kept n)"
    by (simp add: image_image)
  also have "\<dots> \<subseteq> vrecord ` set hits"
    using slice0_subset [of kept n] k(1) by blast
  finally have sub: "set (map vrecord (map fallback_result ?krs)) \<subseteq> set (map vrecord hits)"
    by simp
  from run len flag sub
  show "\<exists>results.
          hybridSearch embedQuery boost ce query store options = Inr results
          \<and> int (length results) \<le> n
          \<and> list_all (\<lambda>r. fromFallback r = Some True) results
          \<and> set (map vrecord results) \<subseteq> set (map vrecord hits)"
    by blast
next
  assume a: "fallbackToKeywordSearch options \<noteq> Some False \<and> buildSafeFilter options = Inl e"
  then have fb: "(case fallbackToKeywordSearch options of None \<Rightarrow> True | Some b \<Rightarrow> b)"
    by (auto split: option.splits)
  from a assms(3) have "keywordOnlySearch query store options = Inl e"
    by (simp add: keywordOnlySearch_def Let_def)
  with assms(1,2,3) fb
  show "hybridSearch embedQuery boost ce query store options = Inl e"
    by (simp add: hybridSearch_def Let_def)
next
  assume "fallbackToKeywordSearch options = Some False"
  with assms(1,3)
  show "hybridSearch embedQuery boost ce query store options = Inl EmbeddingGenerationError"
    by (simp add: hybridSearch_def Let_def)
qed


theorem hybridSearch_fallback_witness:
  "(\<exists>results.
      hybridSearch failing_embedder identity_boost failing_cross_encoder ''login'' demo_store
        default_options = Inr results
      \<and> int (length results) \<le> 10
      \<and> list_all (\<lambda>r. fromFallback r = Some True) results)
   \<and> hybridSearch failing_embedder identity_boost failing_cross_encoder ''login'' demo_store
        (default_options\<lparr>path := Some drop_payload\<rparr>) = Inl InvalidFilterError
   \<and> hybridSearch failing_embedder identity_boost failing_cross_encoder ''login'' demo_store
        (default_options\<lparr>fallbackToKeywordSearch := Some False\<rparr>)
      = Inl EmbeddingGenerationError"
proof (intro conjI)
  have h1: "failing_embedder ''login'' = Inl ModelLoadError"
    by (simp add: failing_embedder_def)
  have h2: "isEmbeddingError ModelLoadError"
    by (simp add: isEmbeddingError_def)
  have h3: "isEmpty demo_store = Inr False"
    by (simp add: demo_store_def)
  have h4: "10 = (case limit default_options of None \<Rightarrow> 10 | Some l \<Rightarrow> l)"
    by (simp add: default_options_def)
  have p1: "fallbackToKeywordSearch default_options \<noteq> Some False
      \<and> buildSafeFilter default_options = Inr None
      \<and> fullTextSearch demo_store ''login'' (10 * 2)
          = Inr [demo_hit ''src_app_ts_L1'', demo_hit ''src_app_ts_L9'']
      \<and> (0::int) \<le> 10"
    by (simp add: default_options_def demo_store_def buildSafeFilter_def path_conditions_def
          file_conditions_def)
  from hybridSearch_fallback [where embedQuery = failing_embedder and query = "''login''"
      and err = ModelLoadError and store = demo_store and options = "default_options"
      and n = 10 and flt = None and hits = "[demo_hit ''src_app_ts_L1'', demo_hit ''src_app_ts_L9'']"
      and boost = identity_boost and ce = failing_cross_encoder and e = InvalidFilterError,
      OF h1 h2 h3 h4] p1
  show "\<exists>results.
      hybridSearch failing_embedder identity_boost failing_cross_encoder ''login'' demo_store
        default_options = Inr results
      \<and> int (length results) \<le> 10
      \<and> list_all (\<lambda>r. fromFallback r = Some True) results"
    by blast
  have h4': "10 = (case limit (default_options\<lparr>path := Some drop_payload\<rparr>) of
                     None \<Rightarrow> 10 | Some l \<Rightarrow> l)"
    by (simp add: default_options_def)
  have p2: "fallbackToKeywordSearch (default_options\<lparr>path := Some drop_payload\<rparr>) \<noteq> Some False
      \<and> buildSafeFilter (default_options\<lparr>path := Some drop_payload\<rparr>) = Inl InvalidFilterError"
    by (simp add: default_options_def drop_payload_def filter_eval)
  from hybridSearch_fallback [where embedQuery = failing_embedder and query = "''login''"
      and err = ModelLoadError and store = demo_store and options = "default_options\<lparr>path := Some drop_payload\<rparr>"
      and n = 10 and flt = None and hits = "[]"
      and boost = identity_boost and ce = failing_cross_encoder and e = InvalidFilterError,
      OF h1 h2 h3 h4'] p2
  show "hybridSearch failing_embedder identity_boost failing_cross_encoder ''login'' demo_store
        (default_options\<lparr>path := Some drop_payload\<rparr>) = Inl InvalidFilterError"
    by blast
  have h4'': "10 = (case limit (default_options\<lparr>fallbackToKeywordSearch := Some False\<rparr>) of
                     None \<Rightarrow> 10 | Some l \<Rightarrow> l)"
    by (simp add: default_options_def)
  have p3: "fallbackToKeywordSearch (default_options\<lparr>fallbackToKeywordSearch := Some False\<rparr>)
              = Some False"
    by simp
  from hybridSearch_fallback [where embedQuery = failing_embedder and query = "''login''"
      and err = ModelLoadError and store = demo_store and options = "default_options\<lparr>fallbackToKeywordSearch := Some False\<rparr>"
      and n = 10 and flt = None and hits = "[]"
      and boost = identity_boost and ce = failing_cross_encoder and e = InvalidFilterError,
      OF h1 h2 h3 h4''] p3
  show "hybridSearch failing_embedder identity_boost failing_cross_encoder ''login'' demo_store
        (default_options\<lparr>fallbackToKeywordSearch := Some False\<rparr>)
      = Inl EmbeddingGenerationError"
    by blast
qed

text \<open>
  The claim C4 as first stated fails for some options and stores: with an injection
  payload as path the fallback raises \<open>InvalidFilterError\<close>; a failure of the full-text
  search of the store is raised to the caller; and with the limit \<open>-1\<close> the empty list
  returned has more than limit elements.
\<close>

theorem fallback_raises_counterexample:
  "hybridSearch failing_embedder identity_boost failing_cross_encoder ''login'' demo_store
     (default_options\<lparr>path := Some drop_payload\<rparr>) = Inl InvalidFilterError
   \<and> hybridSearch failing_embedder identity_boost failing_cross_encoder ''login'' failing_store
       default_options = Inl StoreError
   \<and> hybridSearch failing_embedder identity_boost failing_cross_encoder ''login'' demo_store
       (default_options\<lparr>limit := Some (- 1)\<rparr>) = Inr []"
proof (intro conjI)
  show "hybridSearch failing_embedder identity_boost failing_cross_encoder ''login'' demo_store
     (default_options\<lparr>path := Some drop_payload\<rparr>) = Inl InvalidFilterError"
    by (simp add: hybrid_eval drop_payload_def filter_eval)
  show "hybridSearch failing_embedder identity_boost failing_cross_encoder ''login'' failing_store
       default_options = Inl StoreError"
    by (simp add: hybrid_eval)
  show "hybridSearch failing_embedder identity_boost failing_cross_encoder ''login'' demo_store
       (default_options\<lparr>limit := Some (- 1)\<rparr>) = Inr []"
    by (simp add: hybrid_eval)
qed

section \<open>LRU cache: invariant and eviction\<close>

lemma map_has_iff: "map_has m k \<longleftrightarrow> k \<in> fst ` set m"
  by (simp add: map_has_def map_of_eq_None_iff)

lemma keys_map_delete: "map fst (map_delete k m) = removeAll k (map fst m)"
  by (induction m) (auto simp: map_delete_def)

lemma map_delete_absent: "k \<notin> fst ` set m \<Longrightarrow> map_delete k m = m"
  by (induction m) (auto simp: map_delete_def)

lemma map_delete_hd: "distinct (map fst (p # m)) \<Longrightarrow> map_delete (fst p) (p # m) = m"
  using map_delete_absent [of "fst p" m] by (simp add: map_delete_def)

lemma distinct_map_delete: "distinct (map fst m) \<Longrightarrow> distinct (map fst (map_delete k m))"
  by (simp add: keys_map_delete distinct_removeAll)

lemma length_map_delete_le: "length (map_delete k m) \<le> length m"
  by (simp add: map_delete_def)

lemma length_map_delete_present:
  assumes "distinct (map fst m)" "k \<in> fst ` set m"
  shows "length (map_delete k m) = length m - 1"
proof -
  have "length (map_delete k m) = length (removeAll k (map fst m))"
    by (metis keys_map_delete length_map)
  also have "\<dots> = length (remove1 k (map fst m))"
    using assms(1) by (simp add: distinct_remove1_removeAll)
  also have "\<dots> = length m - 1"
    using assms(2) by (simp add: length_remove1)
  finally show ?thesis .
qed

lemma map_set_absent: "k \<notin> fst ` set m \<Longrightarrow> map_set k e m = m @ [(k, e)]"
  by (simp add: map_set_def map_has_iff)

lemma key_absent_after_delete: "k \<notin> fst ` set (map_delete k m)"
  by (auto simp: map_delete_def)

lemma keys_subset_delete: "fst ` set (map_delete k m) \<subseteq> fst ` set m"
  by (auto simp: map_delete_def)

text \<open>The map of \<open>lru_set\<close> before the insertion, and the cache after it.\<close>

lemma lru_set_cache:
  "cache (lru_set now key v c) =
     (let m1 = map_delete key (cache c);
          m2 = (if int (length m1) \<ge> maxSize c then
                  (case m1 of [] \<Rightarrow> m1 | oldest # rest \<Rightarrow> map_delete (fst oldest) m1)
                else m1)
      in m2 @ [(key, \<lparr>entry_value = v, timestamp = now\<rparr>)])"
proof -
  have m1: "(if map_has (cache c) key then map_delete key (cache c) else cache c)
              = map_delete key (cache c)"
    by (simp add: map_has_iff map_delete_absent)
  have absent: "key \<notin> fst ` set (map_delete key (cache c))"
    by (rule key_absent_after_delete)
  then have absent2: "key \<notin> fst ` set (map_delete k (map_delete key (cache c)))" for k
    using keys_subset_delete [of k "map_delete key (cache c)"] by blast
  show ?thesis
    unfolding lru_set_def m1 Let_def
    using absent absent2
    by (auto simp: map_set_absent split: list.splits)
qed

lemma lru_set_fields [simp]:
  "maxSize (lru_set now key v c) = maxSize c" "ttlMs (lru_set now key v c) = ttlMs c"
  by (simp_all add: lru_set_def Let_def)

lemma lru_get_fields [simp]:
  "maxSize (snd (lru_get now key c)) = maxSize c" "ttlMs (snd (lru_get now key c)) = ttlMs c"
  by (simp_all add: lru_get_def split: option.splits)

lemma lru_has_fields [simp]:
  "maxSize (snd (lru_has now key c)) = maxSize c" "ttlMs (snd (lru_has now key c)) = ttlMs c"
  by (simp_all add: lru_has_def split: option.splits)

lemma lru_set_inv:
  assumes "cache_inv N c" "1 \<le> N"
  shows "cache_inv N (lru_set now key v c)"
proof -
  let ?m1 = "map_delete key (cache c)"
  from assms have d: "distinct (map fst (cache c))" and l: "int (length (cache c)) \<le> N"
    and ms: "maxSize c = N"
    by (simp_all add: cache_inv_def)
  have d1: "distinct (map fst ?m1)" using d by (rule distinct_map_delete)
  have l1: "int (length ?m1) \<le> N" using l length_map_delete_le [of key "cache c"] by linarith
  have a1: "key \<notin> fst ` set ?m1" by (rule key_absent_after_delete)
  show ?thesis
  proof (cases "int (length ?m1) \<ge> N")
    case False
    then have "cache (lru_set now key v c) = ?m1 @ [(key, \<lparr>entry_value = v, timestamp = now\<rparr>)]"
      by (simp add: lru_set_cache ms)
    with d1 l1 a1 False ms show ?thesis
      by (auto simp: cache_inv_def)
  next
    case True
    with assms(2) obtain p rest where pr: "?m1 = p # rest"
      by (cases ?m1) auto
    then have m2: "map_delete (fst p) ?m1 = rest"
      using d1 map_delete_hd [of p rest] by simp
    from True pr m2 have "cache (lru_set now key v c) = rest @ [(key, \<lparr>entry_value = v, timestamp = now\<rparr>)]"
      by (simp add: lru_set_cache ms)
    moreover from d1 pr have "distinct (map fst rest)" by simp
    moreover from a1 pr have "key \<notin> fst ` set rest" by simp
    moreover from l1 pr have "int (length rest) + 1 \<le> N" by simp
    ultimately show ?thesis using ms
      by (auto simp: cache_inv_def)
  qed
qed

lemma lru_get_inv:
  assumes "cache_inv N c"
  shows "cache_inv N (snd (lru_get now key c))"
proof (cases "map_of (cache c) key")
  case None
  with assms show ?thesis by (simp add: lru_get_def)
next
  case (Some entry)
  from assms have d: "distinct (map fst (cache c))" and l: "int (length (cache c)) \<le> N"
    and ms: "maxSize c = N"
    by (simp_all add: cache_inv_def)
  from Some have present: "key \<in> fst ` set (cache c)"
    by (metis map_has_def map_has_iff option.distinct(1))
  let ?m1 = "map_delete key (cache c)"
  have d1: "distinct (map fst ?m1)" using d by (rule distinct_map_delete)
  have a1: "key \<notin> fst ` set ?m1" by (rule key_absent_after_delete)
  have len: "length ?m1 = length (cache c) - 1"
    by (rule length_map_delete_present [OF d present])
  from present have pos: "length (cache c) \<ge> 1"
    by (cases "cache c") auto
  show ?thesis
  proof (cases "expired c now entry")
    case True
    with Some d1 l ms length_map_delete_le [of key "cache c"] show ?thesis
      by (auto simp: lru_get_def cache_inv_def)
  next
    case False
    with Some d1 a1 l ms len pos show ?thesis
      by (auto simp: lru_get_def cache_inv_def map_set_absent)
  qed
qed

lemma lru_has_inv:
  assumes "cache_inv N c"
  shows "cache_inv N (snd (lru_has now key c))"
  using assms distinct_map_delete [of "cache c" key] length_map_delete_le [of key "cache c"]
  by (auto simp: lru_has_def cache_inv_def split: option.splits)

lemma lru_delete_inv:
  assumes "cache_inv N c"
  shows "cache_inv N (snd (lru_delete key c))"
  using assms distinct_map_delete [of "cache c" key] length_map_delete_le [of key "cache c"]
  by (auto simp: lru_delete_def cache_inv_def)

lemma lru_clear_inv: "cache_inv N c \<Longrightarrow> 0 \<le> N \<Longrightarrow> cache_inv N (lru_clear c)"
  by (simp add: lru_clear_def cache_inv_def)

lemma apply_op_inv: "cache_inv N c \<Longrightarrow> 1 \<le> N \<Longrightarrow> cache_inv N (apply_op op c)"
  by (cases op) (simp_all add: lru_set_inv lru_get_inv lru_has_inv lru_delete_inv lru_clear_inv)

lemma run_ops_inv: "cache_inv N c \<Longrightarrow> 1 \<le> N \<Longrightarrow> cache_inv N (run_ops ops c)"
  unfolding run_ops_def
  by (induction ops arbitrary: c) (simp_all add: apply_op_inv)

lemma new_cache_inv: "0 \<le> N \<Longrightarrow> cache_inv N (new_LRUCache (Some N) ttl)"
  by (simp add: cache_inv_def new_LRUCache_def)

lemma map_of_append_absent:
  "k \<notin> fst ` set m \<Longrightarrow> map_of (m @ [(k, e)]) k = Some e"
proof -
  assume "k \<notin> fst ` set m"
  then have "map_of m k = None" by (simp add: map_of_eq_None_iff)
  then show ?thesis by (simp add: map_add_def)
qed

lemma lru_set_cache_room:
  assumes "key \<notin> fst ` set (cache c)" "int (length (cache c)) < maxSize c"
  shows "cache (lru_set now key v c) = cache c @ [(key, \<lparr>entry_value = v, timestamp = now\<rparr>)]"
proof -
  have "map_delete key (cache c) = cache c"
    using assms(1) by (rule map_delete_absent)
  then show ?thesis
    using assms(2) by (simp add: lru_set_cache)
qed

lemma lru_set_cache_full:
  assumes "key \<notin> fst ` set (cache c)" "cache c = p # rest" "distinct (map fst (cache c))"
    "int (length (cache c)) \<ge> maxSize c"
  shows "cache (lru_set now key v c) = rest @ [(key, \<lparr>entry_value = v, timestamp = now\<rparr>)]"
proof -
  have m1: "map_delete key (cache c) = cache c"
    using assms(1) by (rule map_delete_absent)
  have m2: "map_delete (fst p) (p # rest) = rest"
    using assms(2,3) map_delete_hd [of p rest] by simp
  have "cache (lru_set now key v c) =
          (if int (length (cache c)) \<ge> maxSize c then
             (case cache c of [] \<Rightarrow> cache c | oldest # r \<Rightarrow> map_delete (fst oldest) (cache c))
           else cache c) @ [(key, \<lparr>entry_value = v, timestamp = now\<rparr>)]"
    unfolding lru_set_cache Let_def m1 ..
  also have "\<dots> = rest @ [(key, \<lparr>entry_value = v, timestamp = now\<rparr>)]"
    using assms(4) by (simp add: assms(2) m2)
  finally show ?thesis .
qed

text \<open>
  Claim C10. For every cache built with a capacity \<open>N \<ge> 1\<close>, after every sequence of
  \<open>get\<close>, \<open>set\<close>, \<open>has\<close>, \<open>delete\<close> and \<open>clear\<close> the size is at most \<open>N\<close>. On the
  cache so reached, \<open>set\<close> on a present key keeps the size and the keys and stores the
  new value; \<open>set\<close> on a new key at capacity keeps the size \<open>N\<close>, removing exactly the
  oldest key and adding the new one.
\<close>

theorem lru_size_bounded:
  assumes "1 \<le> N" and "c = run_ops ops (new_LRUCache (Some N) ttl)"
  shows "lru_size c \<le> N
    \<and> (map_has (cache c) key \<longrightarrow>
         lru_size (lru_set now key v c) = lru_size c
         \<and> fst ` set (cache (lru_set now key v c)) = fst ` set (cache c)
         \<and> map_of (cache (lru_set now key v c)) key = Some \<lparr>entry_value = v, timestamp = now\<rparr>)
    \<and> (\<not> map_has (cache c) key \<and> lru_size c = N \<longrightarrow>
         lru_size (lru_set now key v c) = N
         \<and> map_has (cache c) (fst (hd (cache c)))
         \<and> fst ` set (cache (lru_set now key v c))
             = fst ` set (cache c) - {fst (hd (cache c))} \<union> {key})"
proof -
  have inv: "cache_inv N c"
    unfolding assms(2) using assms(1) by (intro run_ops_inv new_cache_inv) simp_all
  then have d: "distinct (map fst (cache c))" and l: "int (length (cache c)) \<le> N"
    and ms: "maxSize c = N"
    by (simp_all add: cache_inv_def)
  let ?e = "\<lparr>entry_value = v, timestamp = now\<rparr>"
  let ?m1 = "map_delete key (cache c)"
  have a1: "key \<notin> fst ` set ?m1" by (rule key_absent_after_delete)
  have size: "lru_size c \<le> N" using l by (simp add: lru_size_def)
  have present: "lru_size (lru_set now key v c) = lru_size c
         \<and> fst ` set (cache (lru_set now key v c)) = fst ` set (cache c)
         \<and> map_of (cache (lru_set now key v c)) key = Some ?e"
    if h: "map_has (cache c) key"
  proof -
    from h have k: "key \<in> fst ` set (cache c)" by (simp add: map_has_iff)
    then have pos: "length (cache c) \<ge> 1" by (cases "cache c") auto
    have len: "length ?m1 = length (cache c) - 1"
      by (rule length_map_delete_present [OF d k])
    with l pos have "\<not> int (length ?m1) \<ge> N" by linarith
    then have c': "cache (lru_set now key v c) = ?m1 @ [(key, ?e)]"
      by (simp add: lru_set_cache ms)
    have keys: "fst ` set ?m1 = fst ` set (cache c) - {key}"
      by (auto simp: map_delete_def)
    have "map_of (?m1 @ [(key, ?e)]) key = Some ?e"
      by (rule map_of_append_absent [OF a1])
    with c' len pos keys k show ?thesis
      by (auto simp: lru_size_def simp del: map_of_append)
  qed
  have absent: "lru_size (lru_set now key v c) = N
         \<and> map_has (cache c) (fst (hd (cache c)))
         \<and> fst ` set (cache (lru_set now key v c))
             = fst ` set (cache c) - {fst (hd (cache c))} \<union> {key}"
    if h: "\<not> map_has (cache c) key \<and> lru_size c = N"
  proof -
    from h have k: "key \<notin> fst ` set (cache c)" and full: "int (length (cache c)) = N"
      by (simp_all add: map_has_iff lru_size_def)
    from full assms(1) obtain p rest where pr: "cache c = p # rest"
      by (cases "cache c") auto
    have c': "cache (lru_set now key v c) = rest @ [(key, ?e)]"
      using full ms by (intro lru_set_cache_full [OF k pr d]) simp
    from d pr have "fst p \<notin> fst ` set rest" by simp
    with c' pr full show ?thesis
      by (auto simp: lru_size_def map_has_iff)
  qed
  from size present absent show ?thesis by blast
qed

lemmas lru_eval = run_ops_def lru_set_def lru_get_def lru_has_def lru_delete_def lru_clear_def
  map_has_def map_delete_def map_set_def new_LRUCache_def expired_def Let_def lru_size_def
  demo_cache_ops_def

theorem lru_size_bounded_witness:
  "lru_size (run_ops demo_cache_ops (new_LRUCache (Some 2) None)) \<le> 2
   \<and> lru_size (lru_set 5 ''a'' 9 (run_ops demo_cache_ops (new_LRUCache (Some 2) None)))
       = lru_size (run_ops demo_cache_ops (new_LRUCache (Some 2) None))
   \<and> lru_size (lru_set 5 ''c'' 9 (run_ops demo_cache_ops (new_LRUCache (Some 2) None))) = 2"
proof -
  let ?c = "run_ops demo_cache_ops (new_LRUCache (Some 2) None)"
  have h0: "(1::int) \<le> 2" by simp
  have h1: "map_has (cache ?c) ''a''"
    by (simp add: lru_eval)
  have h2: "\<not> map_has (cache ?c) ''c'' \<and> lru_size ?c = 2"
    by (simp add: lru_eval)
  from lru_size_bounded [OF h0 refl, of demo_cache_ops None "''a''" 5 9] h1
  have a: "lru_size ?c \<le> 2 \<and> lru_size (lru_set 5 ''a'' 9 ?c) = lru_size ?c"
    by blast
  from lru_size_bounded [OF h0 refl, of demo_cache_ops None "''c''" 5 9] h2
  have b: "lru_size (lru_set 5 ''c'' 9 ?c) = 2"
    by blast
  from a b show ?thesis by blast
qed

lemma fst_entry_of [simp]: "fst (entry_of x) = key_of x"
  by (simp add: entry_of_def key_of_def)

lemma fst_comp_entry_of [simp]: "fst \<circ> entry_of = key_of"
  by (rule ext) simp

lemma keys_entries [simp]: "map fst (map entry_of kvs) = map key_of kvs"
  by simp

lemma keys_entries_set [simp]: "fst ` entry_of ` S = key_of ` S"
  by (simp add: image_image)

lemma run_ops_Nil [simp]: "run_ops [] c = c"
  by (simp add: run_ops_def)

lemma run_ops_Cons [simp]: "run_ops (op # ops) c = run_ops ops (apply_op op c)"
  by (simp add: run_ops_def)

lemma run_ops_append [simp]: "run_ops (a @ b) c = run_ops b (run_ops a c)"
  by (simp add: run_ops_def)

lemma sets_Nil [simp]: "sets [] = []"
  by (simp add: sets_def)

lemma sets_Cons [simp]: "sets (x # xs) = Set (fst x) (key_of x) (snd (snd x)) # sets xs"
  by (simp add: sets_def key_of_def split: prod.splits)

lemma sets_append [simp]: "sets (xs @ ys) = sets xs @ sets ys"
  by (simp add: sets_def)

lemma entry_of_Set: "(key_of x, \<lparr>entry_value = snd (snd x), timestamp = fst x\<rparr>) = entry_of x"
  by (simp add: entry_of_def key_of_def)

lemma fill_cache:
  assumes "cache c = map entry_of pre" "distinct (map key_of (pre @ kvs))"
    "int (length (pre @ kvs)) \<le> maxSize c"
  shows "cache (run_ops (sets kvs) c) = map entry_of (pre @ kvs)
         \<and> maxSize (run_ops (sets kvs) c) = maxSize c
         \<and> ttlMs (run_ops (sets kvs) c) = ttlMs c"
  using assms
proof (induction kvs arbitrary: pre c)
  case Nil
  then show ?case by simp
next
  case (Cons x xs)
  let ?c' = "lru_set (fst x) (key_of x) (snd (snd x)) c"
  from Cons.prems have absent: "key_of x \<notin> fst ` set (cache c)"
    by auto
  from Cons.prems have room: "int (length (cache c)) < maxSize c"
    by simp
  have c': "cache ?c' = map entry_of (pre @ [x])"
    using lru_set_cache_room [OF absent room, of "fst x" "snd (snd x)"] Cons.prems(1)
    by (simp add: entry_of_Set)
  have "cache (run_ops (sets xs) ?c') = map entry_of ((pre @ [x]) @ xs)
         \<and> maxSize (run_ops (sets xs) ?c') = maxSize ?c'
         \<and> ttlMs (run_ops (sets xs) ?c') = ttlMs ?c'"
    using Cons.prems by (intro Cons.IH [OF c']) simp_all
  then show ?case by simp
qed

lemma fill_new_cache:
  assumes "distinct (map key_of kvs)" "length kvs \<le> N"
  shows "cache (run_ops (sets kvs) (new_LRUCache (Some (int N)) ttl)) = map entry_of kvs"
    and "maxSize (run_ops (sets kvs) (new_LRUCache (Some (int N)) ttl)) = int N"
    and "ttlMs (run_ops (sets kvs) (new_LRUCache (Some (int N)) ttl)) = ttl"
  using fill_cache [of "new_LRUCache (Some (int N)) ttl" "[]" kvs] assms
  by (simp_all add: new_LRUCache_def)

lemma map_of_entries_present:
  "distinct (map key_of kvs) \<Longrightarrow> x \<in> set kvs
     \<Longrightarrow> map_of (map entry_of kvs) (key_of x) = Some (snd (entry_of x))"
  by (rule map_of_is_SomeI) (auto simp: entry_of_def key_of_def)

lemma map_of_entries_absent:
  "k \<notin> key_of ` set kvs \<Longrightarrow> map_of (map entry_of kvs) k = None"
  by (simp add: map_of_eq_None_iff)

lemma delete_entries:
  "map_delete k (map entry_of kvs) = map entry_of [z \<leftarrow> kvs. key_of z \<noteq> k]"
  by (induction kvs) (simp_all add: map_delete_def)

lemma lru_get_miss: "map_of (cache c) k = None \<Longrightarrow> fst (lru_get now k c) = None"
  by (simp add: lru_get_def)

lemma live_not_expired:
  "live (ttlMs c) t x \<Longrightarrow> \<not> expired c t (snd (entry_of x))"
  by (simp add: live_def expired_def entry_of_def split: option.splits)

lemma lru_get_hit:
  assumes "map_of (cache c) k = Some e" "\<not> expired c now e"
  shows "fst (lru_get now k c) = Some (entry_value e)"
    and "cache (snd (lru_get now k c)) = map_delete k (cache c) @ [(k, e)]"
  using assms key_absent_after_delete [of k "cache c"]
  by (simp_all add: lru_get_def map_set_absent)

lemma entry_value_entry_of [simp]: "entry_value (snd (entry_of x)) = snd (snd x)"
  by (simp add: entry_of_def)

lemma pair_entry_of [simp]: "(key_of x, snd (entry_of x)) = entry_of x"
  by (simp add: entry_of_def key_of_def)

lemma evict_oldest:
  assumes "cache c = map entry_of (z # zs)" "distinct (map key_of ((z # zs) @ [y]))"
    "int (length (z # zs)) \<ge> maxSize c"
  shows "cache (lru_set (fst y) (key_of y) (snd (snd y)) c) = map entry_of (zs @ [y])"
proof -
  have absent: "key_of y \<notin> fst ` set (cache c)"
    using assms(1,2) by auto
  have shape: "cache c = entry_of z # map entry_of zs"
    using assms(1) by simp
  have d: "distinct (map fst (cache c))"
    using assms(1,2) by simp
  have full: "int (length (cache c)) \<ge> maxSize c"
    using assms(1,3) by simp
  from lru_set_cache_full [OF absent shape d full, of "fst y" "snd (snd y)"]
  show ?thesis by (simp add: entry_of_Set)
qed

text \<open>
  Claim C9, as amended. For a cache of capacity \<open>N \<ge> 1\<close> that starts empty, after
  \<open>N + 1\<close> calls of \<open>set\<close> with pairwise distinct keys and no reads, \<open>get\<close> on
  the first key returns nothing. If \<open>N \<ge> 2\<close> and a \<open>get\<close> on one of the first \<open>N\<close>
  keys comes before the last \<open>set\<close>, and the entry of that key has not expired at the
  time of either \<open>get\<close>, the key survives and its value is returned afterwards, and the
  oldest of the other keys is evicted instead.
\<close>

theorem lru_discipline:
  assumes dist: "distinct (map key_of (kvs @ [y]))" and len: "length kvs = N" and n1: "1 \<le> N"
  shows "fst (lru_get now (key_of (hd kvs))
               (run_ops (sets (kvs @ [y])) (new_LRUCache (Some (int N)) ttl))) = None
    \<and> (2 \<le> N \<and> x \<in> set kvs \<and> live ttl g1 x \<and> live ttl g2 x \<longrightarrow>
         fst (lru_get g2 (key_of x)
               (run_ops (sets kvs @ [Get g1 (key_of x)] @ sets [y])
                  (new_LRUCache (Some (int N)) ttl))) = Some (snd (snd x))
         \<and> hd [k \<leftarrow> map key_of kvs. k \<noteq> key_of x] \<in> set (map key_of kvs)
         \<and> hd [k \<leftarrow> map key_of kvs. k \<noteq> key_of x] \<noteq> key_of x
         \<and> fst (lru_get g2 (hd [k \<leftarrow> map key_of kvs. k \<noteq> key_of x])
               (run_ops (sets kvs @ [Get g1 (key_of x)] @ sets [y])
                  (new_LRUCache (Some (int N)) ttl))) = None)"
proof (intro conjI impI)
  let ?c1 = "run_ops (sets kvs) (new_LRUCache (Some (int N)) ttl)"
  from dist have dk: "distinct (map key_of kvs)" by simp
  have c1: "cache ?c1 = map entry_of kvs" "maxSize ?c1 = int N" "ttlMs ?c1 = ttl"
    using fill_new_cache [OF dk, of N ttl] len by simp_all
  from len n1 have "kvs \<noteq> []" by auto
  then have split: "hd kvs # tl kvs = kvs" by simp
  have p1: "cache ?c1 = map entry_of (hd kvs # tl kvs)"
    unfolding split by (rule c1(1))
  have p2: "distinct (map key_of ((hd kvs # tl kvs) @ [y]))"
    unfolding split by (rule dist)
  have p3: "int (length (hd kvs # tl kvs)) \<ge> maxSize ?c1"
    unfolding split using c1(2) len by simp
  have evicted: "cache (lru_set (fst y) (key_of y) (snd (snd y)) ?c1) = map entry_of (tl kvs @ [y])"
    by (rule evict_oldest [OF p1 p2 p3])
  have "key_of (hd kvs) \<notin> key_of ` set (tl kvs @ [y])"
    using p2 by auto
  then have "map_of (cache (lru_set (fst y) (key_of y) (snd (snd y)) ?c1)) (key_of (hd kvs)) = None"
    unfolding evicted by (rule map_of_entries_absent)
  then show "fst (lru_get now (key_of (hd kvs))
               (run_ops (sets (kvs @ [y])) (new_LRUCache (Some (int N)) ttl))) = None"
    by (simp add: lru_get_miss)
next
  assume h: "2 \<le> N \<and> x \<in> set kvs \<and> live ttl g1 x \<and> live ttl g2 x"
  let ?c1 = "run_ops (sets kvs) (new_LRUCache (Some (int N)) ttl)"
  let ?kx = "key_of x"
  let ?rest = "[z \<leftarrow> kvs. key_of z \<noteq> ?kx]"
  let ?c2 = "snd (lru_get g1 ?kx ?c1)"
  let ?c3 = "lru_set (fst y) (key_of y) (snd (snd y)) ?c2"
  from dist have dk: "distinct (map key_of kvs)" by simp
  have c1: "cache ?c1 = map entry_of kvs" "maxSize ?c1 = int N" "ttlMs ?c1 = ttl"
    using fill_new_cache [OF dk, of N ttl] len by simp_all
  from h have x: "x \<in> set kvs" by simp
  have hit: "map_of (cache ?c1) ?kx = Some (snd (entry_of x))"
    using map_of_entries_present [OF dk x] c1 by simp
  have fresh1: "\<not> expired ?c1 g1 (snd (entry_of x))"
    using h c1 live_not_expired [of ?c1 g1 x] by simp
  have c2: "cache ?c2 = map entry_of (?rest @ [x])"
    using lru_get_hit(2) [OF hit fresh1] c1 by (simp add: delete_entries)
  have c2f: "maxSize ?c2 = int N" "ttlMs ?c2 = ttl"
    using c1 by simp_all
  have "length (map_delete ?kx (map entry_of kvs)) = length (map entry_of kvs) - 1"
    using dk x by (intro length_map_delete_present) auto
  then have lrest: "length ?rest = N - 1"
    using len by (simp add: delete_entries)
  with h obtain r rs where rest: "?rest = r # rs"
    by (cases ?rest) auto
  have keys_rest: "map key_of ?rest = [k \<leftarrow> map key_of kvs. k \<noteq> ?kx]"
    by (simp add: filter_map comp_def)
  have "key_of y \<notin> key_of ` set kvs"
    using dist by simp
  moreover have "key_of x \<in> key_of ` set kvs"
    using x by (rule imageI)
  ultimately have xy: "key_of x \<noteq> key_of y"
    by auto
  have drest: "distinct (map key_of (?rest @ [x] @ [y]))"
    using dist x xy by (auto simp: distinct_map_filter)
  have c3: "cache ?c3 = map entry_of (rs @ [x] @ [y])"
  proof -
    have "cache ?c2 = map entry_of (r # (rs @ [x]))"
      using c2 rest by simp
    moreover have "distinct (map key_of ((r # (rs @ [x])) @ [y]))"
      using drest rest by simp
    moreover have "int (length (r # (rs @ [x]))) \<ge> maxSize ?c2"
      using lrest rest h c2f by simp
    ultimately show ?thesis
      using evict_oldest [of ?c2 r "rs @ [x]" y] by simp
  qed
  have c3f: "ttlMs ?c3 = ttl"
    using c2f by simp
  have run: "run_ops (sets kvs @ [Get g1 ?kx] @ sets [y]) (new_LRUCache (Some (int N)) ttl) = ?c3"
    by simp
  have d3: "distinct (map key_of (rs @ [x] @ [y]))"
    using drest rest by simp
  have hit3: "map_of (cache ?c3) ?kx = Some (snd (entry_of x))"
    using map_of_entries_present [OF d3, of x] c3 by simp
  have fresh3: "\<not> expired ?c3 g2 (snd (entry_of x))"
    using h c3f live_not_expired [of ?c3 g2 x] by simp
  show "fst (lru_get g2 ?kx
               (run_ops (sets kvs @ [Get g1 ?kx] @ sets [y])
                  (new_LRUCache (Some (int N)) ttl))) = Some (snd (snd x))"
    unfolding run using lru_get_hit(1) [OF hit3 fresh3] by simp
  have hd_key: "hd [k \<leftarrow> map key_of kvs. k \<noteq> ?kx] = key_of r"
    using keys_rest rest by (metis list.sel(1) list.simps(9))
  have r_in: "r \<in> set ?rest"
    using rest by simp
  then show "hd [k \<leftarrow> map key_of kvs. k \<noteq> ?kx] \<in> set (map key_of kvs)"
    unfolding hd_key by auto
  from r_in show "hd [k \<leftarrow> map key_of kvs. k \<noteq> ?kx] \<noteq> ?kx"
    unfolding hd_key by auto
  have "key_of r \<notin> key_of ` set (rs @ [x] @ [y])"
    using drest rest by auto
  then have "map_of (cache ?c3) (key_of r) = None"
    unfolding c3 by (rule map_of_entries_absent)
  then show "fst (lru_get g2 (hd [k \<leftarrow> map key_of kvs. k \<noteq> ?kx])
               (run_ops (sets kvs @ [Get g1 ?kx] @ sets [y])
                  (new_LRUCache (Some (int N)) ttl))) = None"
    unfolding run hd_key by (rule lru_get_miss)
qed

theorem lru_discipline_witness:
  "fst (lru_get 3 (key_of (hd first_three))
          (run_ops (sets (first_three @ [fourth])) (new_LRUCache (Some (int 3)) None))) = None
   \<and> fst (lru_get 3 (key_of (hd first_three))
          (run_ops (sets first_three @ [Get 1 (key_of (hd first_three))] @ sets [fourth])
             (new_LRUCache (Some (int 3)) None))) = Some (snd (snd (hd first_three)))
   \<and> fst (lru_get 3 (hd [k \<leftarrow> map key_of first_three. k \<noteq> key_of (hd first_three)])
          (run_ops (sets first_three @ [Get 1 (key_of (hd first_three))] @ sets [fourth])
             (new_LRUCache (Some (int 3)) None))) = None"
proof -
  have d: "distinct (map key_of (first_three @ [fourth]))"
    by (simp add: first_three_def fourth_def key_of_def)
  have l: "length first_three = 3"
    by (simp add: first_three_def)
  have n: "1 \<le> (3::nat)"
    by simp
  have p: "2 \<le> (3::nat) \<and> hd first_three \<in> set first_three
           \<and> live None 1 (hd first_three) \<and> live None 3 (hd first_three)"
    by (simp add: first_three_def live_def)
  from lru_discipline [OF d l n, of 3 None "hd first_three" 1 3] p
  show ?thesis by blast
qed

text \<open>
  The claim C9 as first stated fails at capacity 1, where the key that was read is the
  only key and is evicted by the next \<open>set\<close>; it fails with a time to live, where a
  \<open>get\<close> after the expiry deletes the entry; and it fails for a \<open>get\<close> that comes
  before the other keys are set, which then are more recent than the key read.
\<close>

theorem lru_capacity_one_counterexample:
  "fst (lru_get 3 ''a''
          (run_ops [Set 0 ''a'' 1, Get 1 ''a'', Set 2 ''b'' 2] (new_LRUCache (Some 1) None)))
     = (None :: nat option)
   \<and> fst (lru_get 12 ''a''
          (run_ops [Set 0 ''a'' 1, Set 0 ''b'' 2, Get 10 ''a'', Set 11 ''c'' 3]
             (new_LRUCache (Some 2) (Some 5))))
     = (None :: nat option)
   \<and> fst (lru_get 5 ''a''
          (run_ops [Set 0 ''a'' 1, Get 1 ''a'', Set 2 ''b'' 2, Set 3 ''c'' 3, Set 4 ''d'' 4]
             (new_LRUCache (Some 3) None)))
     = (None :: nat option)"
  by (simp add: lru_eval)

end
